theory Spec2Isabelle
  imports Complex_Main "HOL-Library.AList"
begin

unbundle bit_operations_syntax

section \<open>Python values used by the air piano\<close>

text \<open>
  The program is one Python class, \<^verbatim>\<open>EnhancedAirPiano\<close>, plus the static helper
  \<^verbatim>\<open>MusicTheoryHelper.note_to_name\<close>. Python integers are \<open>int\<close>, Python floats are
  idealised as \<open>real\<close>, a \<^verbatim>\<open>dict\<close> is an association list in insertion order, and a
  \<^verbatim>\<open>set\<close> is the list of its elements in iteration order (\<open>set_add\<close> and
  \<open>set_discard\<close> keep that list free of repetitions). Every exception the modelled
  code can raise is a value of \<open>py_error\<close>.
\<close>

datatype py_error = KeyError | IndexError | ValueError | TypeError | ZeroDivisionError

text \<open>\<^verbatim>\<open>xs[i]\<close> on a list; an index below zero is taken from the end, and one outside the list raises IndexError.\<close>

definition py_index :: "'a list \<Rightarrow> int \<Rightarrow> py_error + 'a" where
  "py_index xs i =
     (if 0 \<le> i \<and> i < int (length xs) then Inr (xs ! nat i)
      else if i < 0 \<and> - int (length xs) \<le> i then Inr (xs ! nat (int (length xs) + i))
      else Inl IndexError)"

text \<open>\<^verbatim>\<open>d[k]\<close> on a dict.\<close>

definition dict_get :: "('k \<times> 'v) list \<Rightarrow> 'k \<Rightarrow> py_error + 'v" where
  "dict_get d k = (case map_of d k of None \<Rightarrow> Inl KeyError | Some v \<Rightarrow> Inr v)"

text \<open>\<^verbatim>\<open>s.add(x)\<close> and \<^verbatim>\<open>s.discard(x)\<close> on a set.\<close>

definition set_add :: "'a \<Rightarrow> 'a list \<Rightarrow> 'a list" where
  "set_add x xs = (if x \<in> set xs then xs else xs @ [x])"

definition set_discard :: "'a \<Rightarrow> 'a list \<Rightarrow> 'a list" where
  "set_discard x xs = filter (\<lambda>y. y \<noteq> x) xs"

text \<open>\<^verbatim>\<open>int(x)\<close> on a float truncates towards zero.\<close>

definition py_int :: "real \<Rightarrow> int" where
  "py_int x = (if 0 \<le> x then \<lfloor>x\<rfloor> else \<lceil>x\<rceil>)"

text \<open>\<^verbatim>\<open>np.clip(x, lo, hi)\<close>, which is \<^verbatim>\<open>minimum(maximum(x, lo), hi)\<close>.\<close>

definition np_clip :: "'a::linorder \<Rightarrow> 'a \<Rightarrow> 'a \<Rightarrow> 'a" where
  "np_clip x lo hi = min (max x lo) hi"

text \<open>\<^verbatim>\<open>str(i)\<close> for an integer, as the f-string \<^verbatim>\<open>f"{note_name}{octave}"\<close> prints it.\<close>

definition digit_char :: "nat \<Rightarrow> char" where
  "digit_char d = ''0123456789'' ! d"

fun str_nat :: "nat \<Rightarrow> string" where
  "str_nat n = (if n < 10 then [digit_char n] else str_nat (n div 10) @ [digit_char (n mod 10)])"

declare str_nat.simps [simp del]

definition py_str :: "int \<Rightarrow> string" where
  "py_str i = (if i < 0 then CHR ''-'' # str_nat (nat (- i)) else str_nat (nat i))"

text \<open>\<^verbatim>\<open>char.isdigit()\<close> on the ASCII characters a note name is made of.\<close>

definition isdigit :: "char \<Rightarrow> bool" where
  "isdigit c = (c \<in> set ''0123456789'')"

section \<open>MusicTheoryHelper.note_to_name and get_chord_name\<close>

definition note_names :: "string list" where
  "note_names = [''C'', ''C#'', ''D'', ''D#'', ''E'', ''F'', ''F#'', ''G'', ''G#'', ''A'', ''A#'', ''B'']"

definition note_to_name :: "int \<Rightarrow> py_error + string" where
  "note_to_name midi_note =
     (let octave = (midi_note div 12) - 1
      in case py_index note_names (midi_note mod 12) of
           Inl e \<Rightarrow> Inl e
         | Inr note_name \<Rightarrow> Inr (note_name @ py_str octave))"

text \<open>
  \<^verbatim>\<open>''.join([char for char in root_name_raw if not char.isdigit() and char not in ['-', '+']])\<close>
\<close>

definition strip_octave :: "string \<Rightarrow> string" where
  "strip_octave raw = filter (\<lambda>c. \<not> isdigit c \<and> c \<notin> set [CHR ''-'', CHR ''+'']) raw"

definition get_chord_name :: "int list \<Rightarrow> py_error + string" where
  "get_chord_name notes =
     (if notes = [] then Inr ''---''
      else
        let sorted_notes = sort notes in
        case py_index sorted_notes 0 of Inl e \<Rightarrow> Inl e | Inr root_midi \<Rightarrow>
        case note_to_name root_midi of Inl e \<Rightarrow> Inl e | Inr root_name_raw \<Rightarrow>
        let root_name = strip_octave root_name_raw in
        if length sorted_notes = 1 then Inr root_name
        else if length sorted_notes = 2 then
          (case py_index sorted_notes 1 of Inl e \<Rightarrow> Inl e | Inr n1 \<Rightarrow>
           case py_index sorted_notes 0 of Inl e \<Rightarrow> Inl e | Inr n0 \<Rightarrow>
           let interval = n1 - n0 in
           if interval = 3 then Inr (root_name @ '' m3'')
           else if interval = 4 then Inr (root_name @ '' M3'')
           else if interval = 7 then Inr (root_name @ '' P5'')
           else Inr (root_name @ '' Pair''))
        else if length sorted_notes \<ge> 3 then
          (case py_index sorted_notes 1 of Inl e \<Rightarrow> Inl e | Inr n1 \<Rightarrow>
           case py_index sorted_notes 0 of Inl e \<Rightarrow> Inl e | Inr n0 \<Rightarrow>
           case py_index sorted_notes 2 of Inl e \<Rightarrow> Inl e | Inr n2 \<Rightarrow>
           let interval1 = n1 - n0; interval2 = n2 - n1 in
           if interval1 = 4 \<and> interval2 = 3 then Inr (root_name @ '' Maj'')
           else if interval1 = 3 \<and> interval2 = 4 then Inr (root_name @ '' Min'')
           else if interval1 = 5 \<and> interval2 = 2 then Inr (root_name @ '' Sus4'')
           else if interval1 = 2 \<and> interval2 = 5 then Inr (root_name @ '' Sus2'')
           else Inr (root_name @ '' Triad''))
        else Inr ''Chord'')"

text \<open>The name of a note's pitch class, the "12-tone root" of the chord display.\<close>

definition pitch_class_name :: "int \<Rightarrow> string" where
  "pitch_class_name n = note_names ! nat (n mod 12)"

section \<open>calculate_dynamic_velocity\<close>

text \<open>
  A landmark is cvzone's \<^verbatim>\<open>[x, y, z]\<close> in pixels; \<^verbatim>\<open>[:2]\<close> keeps \<open>x\<close> and \<open>y\<close>.
  The only field of \<^verbatim>\<open>self\<close> the function reads is \<^verbatim>\<open>velocity_multiplier\<close>, so it
  is the first argument here. \<^verbatim>\<open>hand_landmarks\<close> may be missing (\<open>None\<close>).
\<close>

type_synonym landmark = "int \<times> int \<times> int"

definition xy :: "landmark \<Rightarrow> int \<times> int" where
  "xy p = (fst p, fst (snd p))"

definition finger_landmarks :: "(int \<times> (int \<times> int)) list" where
  "finger_landmarks = [(0, (4, 2)), (1, (8, 5)), (2, (12, 9)), (3, (16, 13)), (4, (20, 17))]"

definition euclid :: "int \<times> int \<Rightarrow> int \<times> int \<Rightarrow> real" where
  "euclid a b = sqrt (real_of_int ((fst a - fst b)\<^sup>2 + (snd a - snd b)\<^sup>2))"

definition calculate_dynamic_velocity :: "real \<Rightarrow> landmark list option \<Rightarrow> int \<Rightarrow> int" where
  "calculate_dynamic_velocity velocity_multiplier hand_landmarks finger_index =
     (case hand_landmarks of
        None \<Rightarrow> 80
      | Some lms \<Rightarrow>
          if lms = [] \<or> length lms \<le> 20 then 80
          else case map_of finger_landmarks finger_index of
            None \<Rightarrow> 80
          | Some (tip_idx, base_idx) \<Rightarrow>
              let tip_pos = xy (lms ! nat tip_idx);
                  base_pos = xy (lms ! nat base_idx);
                  distance = euclid tip_pos base_pos;
                  min_dist = 20; max_dist = 150;
                  normalized = np_clip ((distance - min_dist) / (max_dist - min_dist)) 0 1;
                  velocity_curve = normalized powr 0.6;
                  velocity = py_int (20 + velocity_curve * 107 * velocity_multiplier)
              in np_clip velocity 20 127)"

section \<open>MIDI output\<close>

text \<open>
  What \<^verbatim>\<open>self.player\<close> is asked to do, in order: \<^verbatim>\<open>note_on(note, velocity)\<close>,
  \<^verbatim>\<open>note_off(note, velocity)\<close> and \<^verbatim>\<open>write_short(status, data1, data2)\<close>.
\<close>

datatype midi_msg = NoteOn int int | NoteOff int int | WriteShort int int int

section \<open>The instrument's state\<close>

type_synonym chord = "int list"
type_synonym hand_map = "(string \<times> chord) list"
type_synonym scale = "(string \<times> hand_map) list"
type_synonym finger_states = "(string \<times> (string \<times> int) list) list"

text \<open>One entry of \<^verbatim>\<open>self.recorded_notes\<close>: the dict with keys note, velocity, time, action.\<close>

record recorded_event =
  ev_note :: int
  ev_velocity :: int
  ev_time :: real
  ev_action :: string

text \<open>
  Work started off the main loop that has not run yet: the two echo
  \<^verbatim>\<open>threading.Timer\<close>s of a press (the note, the press velocity and the factor of
  the lambda), the daemon thread of \<^verbatim>\<open>stop_chord_enhanced\<close> (its chord) and the
  playback thread. How long each one waits is not modelled: any of them may run at any
  later step, and each runs as one step.
\<close>

datatype task = EchoTimer int int real | SustainThread chord | PlaybackThread

text \<open>
  The fields of \<^verbatim>\<open>EnhancedAirPiano\<close> that the gesture logic reads or writes.
  \<open>player\<close> is whether \<^verbatim>\<open>self.player\<close> is set; \<open>midi_out\<close> is everything sent to
  it so far; a reading of \<^verbatim>\<open>time.time()\<close> is an argument \<open>now\<close> of the step that
  takes it.
\<close>

record piano =
  player :: bool
  screen_width :: int
  current_instrument :: int
  instruments :: "int list"
  current_scale :: string
  scales :: "(string \<times> scale) list"
  prev_states :: finger_states
  active_notes :: "int list"
  active_keys :: "string list"
  sustain_time :: real
  velocity_multiplier :: real
  recording :: bool
  recorded_notes :: "recorded_event list"
  recording_start_time :: "real option"
  echo_enabled :: bool
  pinch_threshold :: real
  pinch_chord_notes :: "int list"
  pinch_chord_playing :: bool
  background :: "task list"
  midi_out :: "midi_msg list"

text \<open>
  A hand as cvzone reports it: \<^verbatim>\<open>hand["type"]\<close>, \<^verbatim>\<open>hand["lmList"]\<close>,
  \<^verbatim>\<open>hand["bbox"]\<close>, and what \<^verbatim>\<open>self.detector.fingersUp(hand)\<close> answers for it.
\<close>

record hand =
  hand_type :: string
  lmList :: "landmark list"
  bbox :: "int \<times> int \<times> int \<times> int"
  fingersUp :: "int list"

definition finger_names :: "string list" where
  "finger_names = [''thumb'', ''index'', ''middle'', ''ring'', ''pinky'']"

definition D_Major :: scale where
  "D_Major =
     [(''left'', [(''thumb'', [62, 66, 69]), (''index'', [64, 67, 71]), (''middle'', [66, 69, 73]),
                  (''ring'', [67, 71, 74]), (''pinky'', [69, 73, 76])]),
      (''right'', [(''thumb'', [74, 78, 81]), (''index'', [76, 79, 83]), (''middle'', [78, 81, 85]),
                   (''ring'', [79, 83, 86]), (''pinky'', [81, 85, 88])])]"

definition C_Major :: scale where
  "C_Major =
     [(''left'', [(''thumb'', [60, 64, 67]), (''index'', [62, 65, 69]), (''middle'', [64, 67, 71]),
                  (''ring'', [65, 69, 72]), (''pinky'', [67, 71, 74])]),
      (''right'', [(''thumb'', [72, 76, 79]), (''index'', [74, 77, 81]), (''middle'', [76, 79, 83]),
                   (''ring'', [77, 81, 84]), (''pinky'', [79, 83, 86])])]"

definition Pentatonic :: scale where
  "Pentatonic =
     [(''left'', [(''thumb'', [60, 64, 67]), (''index'', [62, 67, 69]), (''middle'', [64, 69, 72]),
                  (''ring'', [67, 72, 74]), (''pinky'', [69, 74, 77])]),
      (''right'', [(''thumb'', [72, 76, 79]), (''index'', [74, 79, 81]), (''middle'', [76, 81, 84]),
                   (''ring'', [79, 84, 86]), (''pinky'', [81, 86, 89])])]"

definition initial_scales :: "(string \<times> scale) list" where
  "initial_scales = [(''D_Major'', D_Major), (''C_Major'', C_Major), (''Pentatonic'', Pentatonic)]"

text \<open>
  \<^verbatim>\<open>{hand_type: {finger: 0 for finger in chords[hand_type]} for hand_type in chords}\<close>
\<close>

definition all_down :: "scale \<Rightarrow> finger_states" where
  "all_down chords = map (\<lambda>(hand_type, fm). (hand_type, map (\<lambda>(finger, c). (finger, 0)) fm)) chords"

text \<open>The object \<^verbatim>\<open>__init__\<close> builds, once MIDI and camera are set up (1280 is the default width).\<close>

definition initial_piano :: piano where
  "initial_piano =
     \<lparr> player = True, screen_width = 1280, current_instrument = 0,
       instruments = [0, 1, 4, 6, 8, 11, 12, 14, 16, 25, 40, 48, 73, 80],
       current_scale = ''D_Major'', scales = initial_scales,
       prev_states = all_down D_Major, active_notes = [], active_keys = [],
       sustain_time = 0.8, velocity_multiplier = 1.0, recording = False,
       recorded_notes = [], recording_start_time = None, echo_enabled = False,
       pinch_threshold = 30, pinch_chord_notes = [84, 88, 91], pinch_chord_playing = False,
       background = [], midi_out = [] \<rparr>"

section \<open>Sending notes\<close>

definition get_current_chords :: "piano \<Rightarrow> py_error + scale" where
  "get_current_chords s = dict_get (scales s) (current_scale s)"

definition play_single_note :: "int \<Rightarrow> int \<Rightarrow> piano \<Rightarrow> piano" where
  "play_single_note note velocity s =
     (if player s then s\<lparr>midi_out := midi_out s @ [NoteOn note velocity]\<rparr> else s)"

text \<open>\<^verbatim>\<open>if self.player: self.player.note_off(note, velocity)\<close>\<close>

definition player_note_off :: "int \<Rightarrow> int \<Rightarrow> piano \<Rightarrow> piano" where
  "player_note_off note velocity s =
     (if player s then s\<lparr>midi_out := midi_out s @ [NoteOff note velocity]\<rparr> else s)"

text \<open>
  \<^verbatim>\<open>self.recorded_notes.append({...})\<close>; the subtraction
  \<^verbatim>\<open>time.time() - self.recording_start_time\<close> raises TypeError while the start time is None.
\<close>

definition record_event :: "int \<Rightarrow> int \<Rightarrow> string \<Rightarrow> real \<Rightarrow> piano \<Rightarrow> py_error + piano" where
  "record_event note velocity action now s =
     (case recording_start_time s of
        None \<Rightarrow> Inl TypeError
      | Some t0 \<Rightarrow>
          Inr (s\<lparr>recorded_notes := recorded_notes s @
                 [\<lparr>ev_note = note, ev_velocity = velocity, ev_time = now - t0, ev_action = action\<rparr>]\<rparr>))"

text \<open>The loop of \<^verbatim>\<open>play_chord_enhanced\<close>; \<open>i\<close> is the index \<^verbatim>\<open>enumerate\<close> gives.\<close>

fun play_chord_loop :: "nat \<Rightarrow> chord \<Rightarrow> int \<Rightarrow> real \<Rightarrow> piano \<Rightarrow> py_error + piano" where
  "play_chord_loop i [] velocity now s = Inr s"
| "play_chord_loop i (note # rest) velocity now s =
     (if note \<notin> set (active_notes s) then
        let s1 = play_single_note note velocity s;
            s2 = s1\<lparr>active_notes := set_add note (active_notes s1)\<rparr>;
            s3 = (if echo_enabled s2 \<and> i = 0
                  then s2\<lparr>background := background s2 @
                            [EchoTimer note velocity 0.7, EchoTimer note velocity 0.4]\<rparr>
                  else s2)
        in if recording s3 then
             (case record_event note velocity ''on'' now s3 of
                Inl e \<Rightarrow> Inl e
              | Inr s4 \<Rightarrow> play_chord_loop (Suc i) rest velocity now s4)
           else play_chord_loop (Suc i) rest velocity now s3
      else play_chord_loop (Suc i) rest velocity now s)"

definition play_chord_enhanced :: "chord \<Rightarrow> int \<Rightarrow> real \<Rightarrow> piano \<Rightarrow> py_error + piano" where
  "play_chord_enhanced chord_notes velocity now s = play_chord_loop 0 chord_notes velocity now s"

text \<open>The body of an echo timer's lambda.\<close>

definition echo_fire :: "int \<Rightarrow> int \<Rightarrow> real \<Rightarrow> piano \<Rightarrow> piano" where
  "echo_fire n v factor s =
     (let s1 = play_single_note n (py_int (real_of_int v * factor)) s
      in s1\<lparr>active_notes := set_add n (active_notes s1)\<rparr>)"

text \<open>\<^verbatim>\<open>stop_chord_enhanced\<close> only starts the thread.\<close>

definition stop_chord_enhanced :: "chord \<Rightarrow> piano \<Rightarrow> piano" where
  "stop_chord_enhanced chord_notes s = s\<lparr>background := background s @ [SustainThread chord_notes]\<rparr>"

text \<open>\<^verbatim>\<open>stop_after_delay\<close>, once the sleep is over: the release itself.\<close>

fun stop_after_delay :: "chord \<Rightarrow> real \<Rightarrow> piano \<Rightarrow> py_error + piano" where
  "stop_after_delay [] now s = Inr s"
| "stop_after_delay (note # rest) now s =
     (if note \<in> set (active_notes s) then
        let s1 = player_note_off note 127 s;
            s2 = s1\<lparr>active_notes := set_discard note (active_notes s1)\<rparr>
        in if recording s2 then
             (case record_event note 0 ''off'' now s2 of
                Inl e \<Rightarrow> Inl e
              | Inr s3 \<Rightarrow> stop_after_delay rest now s3)
           else stop_after_delay rest now s2
      else stop_after_delay rest now s)"

definition send_pitch_bend :: "int \<Rightarrow> piano \<Rightarrow> piano" where
  "send_pitch_bend bend_value s =
     (if player s then
        let lsb = bend_value AND 127;
            msb = (drop_bit 7 bend_value) AND 127
        in s\<lparr>midi_out := midi_out s @ [WriteShort 224 lsb msb]\<rparr>
      else s)"

text \<open>
  \<^verbatim>\<open>for note in list(self.active_notes): if self.player: self.player.note_off(note, 127);
  self.active_notes.discard(note)\<close>, the flush of the no-hands branch and of playback.
\<close>

fun stop_all :: "int list \<Rightarrow> piano \<Rightarrow> piano" where
  "stop_all [] s = s"
| "stop_all (note # rest) s =
     (let s1 = player_note_off note 127 s
      in stop_all rest (s1\<lparr>active_notes := set_discard note (active_notes s1)\<rparr>))"

section \<open>The pinch gesture\<close>

fun pinch_chord_loop :: "int list \<Rightarrow> real \<Rightarrow> piano \<Rightarrow> py_error + piano" where
  "pinch_chord_loop [] now s = Inr s"
| "pinch_chord_loop (note # rest) now s =
     (if note \<notin> set (active_notes s) then
        let s1 = play_single_note note 120 s;
            s2 = s1\<lparr>active_notes := set_add note (active_notes s1)\<rparr>
        in if recording s2 then
             (case record_event note 120 ''on'' now s2 of
                Inl e \<Rightarrow> Inl e
              | Inr s3 \<Rightarrow> pinch_chord_loop rest now s3)
           else pinch_chord_loop rest now s2
      else pinch_chord_loop rest now s)"

definition is_pinching :: "hand \<Rightarrow> piano \<Rightarrow> bool" where
  "is_pinching h s =
     (let thumb_tip = xy (lmList h ! 4);
          index_tip = xy (lmList h ! 8);
          pinch_dist = euclid thumb_tip index_tip;
          fingers_up = fingersUp h
      in pinch_dist < pinch_threshold s \<and> length fingers_up \<ge> 2 \<and>
         fingers_up ! 0 = 1 \<and> fingers_up ! 1 = 1)"

text \<open>
  The pitch bend of a pinching hand, lines \<^verbatim>\<open>x, y, w, h = hand["bbox"]\<close> to
  \<^verbatim>\<open>pitch_bend_value = int(normalized_x * 16383)\<close>; the division raises when the
  screen width is 0.
\<close>

definition pitch_bend_value :: "hand \<Rightarrow> piano \<Rightarrow> py_error + int" where
  "pitch_bend_value h s =
     (case bbox h of (x, y, w, ht) \<Rightarrow>
        let center_x = x + w div 2
        in if screen_width s = 0 then Inl ZeroDivisionError
           else let normalized_x = np_clip (real_of_int center_x / real_of_int (screen_width s)) 0 1
                in Inr (py_int (normalized_x * 16383)))"

definition handle_pinch_gesture :: "hand \<Rightarrow> real \<Rightarrow> piano \<Rightarrow> py_error + (bool \<times> piano)" where
  "handle_pinch_gesture h now s =
     (if lmList h = [] \<or> length (lmList h) < 21 then Inr (False, s)
      else if is_pinching h s then
        (case (if \<not> pinch_chord_playing s then
                 (case pinch_chord_loop (pinch_chord_notes s) now s of
                    Inl e \<Rightarrow> Inl e
                  | Inr s1 \<Rightarrow> Inr (s1\<lparr>pinch_chord_playing := True\<rparr>))
               else Inr s) of
           Inl e \<Rightarrow> Inl e
         | Inr s2 \<Rightarrow>
             (case pitch_bend_value h s2 of
                Inl e \<Rightarrow> Inl e
              | Inr v \<Rightarrow> Inr (True, send_pitch_bend v s2)))
      else Inr (False, s))"

text \<open>The loop that ends the pinch chord in \<^verbatim>\<open>process_hands\<close>.\<close>

fun pinch_stop_loop :: "int list \<Rightarrow> piano \<Rightarrow> piano" where
  "pinch_stop_loop [] s = s"
| "pinch_stop_loop (note # rest) s =
     (if note \<in> set (active_notes s) then
        let s1 = player_note_off note 127 s
        in pinch_stop_loop rest (s1\<lparr>active_notes := set_discard note (active_notes s1)\<rparr>)
      else pinch_stop_loop rest s)"

section \<open>process_hands\<close>

text \<open>\<^verbatim>\<open>d[k1][k2]\<close> on a dict of dicts.\<close>

definition dict_get2 :: "('a \<times> ('b \<times> 'v) list) list \<Rightarrow> 'a \<Rightarrow> 'b \<Rightarrow> py_error + 'v" where
  "dict_get2 d k1 k2 = (case dict_get d k1 of Inl e \<Rightarrow> Inl e | Inr row \<Rightarrow> dict_get row k2)"

text \<open>
  The rising-edge test and its \<^verbatim>\<open>elif\<close> for one finger whose state this frame is
  \<open>cur\<close>. The previous state is looked up only where Python's \<^verbatim>\<open>and\<close> gets that
  far: in the first test when the finger is up, in the \<^verbatim>\<open>elif\<close> when it is down.
\<close>

definition finger_edge ::
  "int \<Rightarrow> nat \<Rightarrow> string \<Rightarrow> hand \<Rightarrow> string \<Rightarrow> chord \<Rightarrow> string \<Rightarrow> real \<Rightarrow>
   piano \<times> string list \<Rightarrow> py_error + (piano \<times> string list)" where
  "finger_edge cur i finger_name h hand_key chord_notes key_name now acc =
     (case acc of (s, keys) \<Rightarrow>
        if cur = 1 then
          (case dict_get2 (prev_states s) hand_key finger_name of
             Inl e \<Rightarrow> Inl e
           | Inr prev \<Rightarrow>
               if prev = 0 then
                 let velocity = calculate_dynamic_velocity
                       (velocity_multiplier s) (Some (lmList h)) (int i)
                 in (case play_chord_enhanced chord_notes velocity now s of
                       Inl e \<Rightarrow> Inl e
                     | Inr s1 \<Rightarrow> Inr (s1, set_add key_name keys))
               else Inr (s, keys))
        else if cur = 0 then
          (case dict_get2 (prev_states s) hand_key finger_name of
             Inl e \<Rightarrow> Inl e
           | Inr prev \<Rightarrow>
               if prev = 1 then Inr (stop_chord_enhanced chord_notes s, keys)
               else Inr (s, keys))
        else Inr (s, keys))"

text \<open>
  One round of the loop over the five fingers of a hand that is not pinching. It carries
  the piano, \<^verbatim>\<open>current_finger_states\<close> and \<^verbatim>\<open>current_frame_active_keys_input\<close>.
\<close>

definition finger_step ::
  "nat \<Rightarrow> string \<Rightarrow> hand \<Rightarrow> string \<Rightarrow> scale \<Rightarrow> real \<Rightarrow>
   piano \<times> finger_states \<times> string list \<Rightarrow> py_error + (piano \<times> finger_states \<times> string list)" where
  "finger_step i finger_name h hand_key chords now acc =
     (case acc of (s, cfs, keys) \<Rightarrow>
        case dict_get chords hand_key of
          Inl e \<Rightarrow> Inl e
        | Inr hand_chords \<Rightarrow>
            if finger_name \<in> set (map fst hand_chords) \<and> i < length (fingersUp h) then
              (case dict_get cfs hand_key of
                 Inl e \<Rightarrow> Inl e
               | Inr row \<Rightarrow>
                   let cur = fingersUp h ! i;
                       cfs1 = AList.update hand_key (AList.update finger_name cur row) cfs;
                       key_name = hand_key @ ''_'' @ finger_name
                   in case dict_get hand_chords finger_name of
                        Inl e \<Rightarrow> Inl e
                      | Inr chord_notes \<Rightarrow>
                          (case finger_edge cur i finger_name h hand_key chord_notes key_name now
                                  (s, keys) of
                             Inl e \<Rightarrow> Inl e
                           | Inr (s2, keys2) \<Rightarrow>
                               let keys3 = (if cur = 1 then set_add key_name keys2 else keys2)
                               in Inr (s2, cfs1, keys3)))
            else Inr (s, cfs, keys))"

fun finger_loop ::
  "nat \<Rightarrow> string list \<Rightarrow> hand \<Rightarrow> string \<Rightarrow> scale \<Rightarrow> real \<Rightarrow>
   piano \<times> finger_states \<times> string list \<Rightarrow> py_error + (piano \<times> finger_states \<times> string list)" where
  "finger_loop i [] h hand_key chords now acc = Inr acc"
| "finger_loop i (finger_name # rest) h hand_key chords now acc =
     (case finger_step i finger_name h hand_key chords now acc of
        Inl e \<Rightarrow> Inl e
      | Inr acc1 \<Rightarrow> finger_loop (Suc i) rest h hand_key chords now acc1)"

text \<open>The loop over the hands; the last component is \<^verbatim>\<open>pinching_in_current_frame\<close>.\<close>

fun hands_loop ::
  "hand list \<Rightarrow> scale \<Rightarrow> real \<Rightarrow> piano \<times> finger_states \<times> string list \<times> bool \<Rightarrow>
   py_error + (piano \<times> finger_states \<times> string list \<times> bool)" where
  "hands_loop [] chords now acc = Inr acc"
| "hands_loop (h # rest) chords now (s, cfs, keys, pinching) =
     (let hand_key = (if hand_type h = ''Left'' then ''left'' else ''right'')
      in case handle_pinch_gesture h now s of
           Inl e \<Rightarrow> Inl e
         | Inr (pinched, s1) \<Rightarrow>
             if pinched then hands_loop rest chords now (s1, cfs, keys, True)
             else (case finger_loop 0 finger_names h hand_key chords now (s1, cfs, keys) of
                     Inl e \<Rightarrow> Inl e
                   | Inr (s2, cfs2, keys2) \<Rightarrow> hands_loop rest chords now (s2, cfs2, keys2, pinching)))"

definition process_hands :: "hand list \<Rightarrow> real \<Rightarrow> piano \<Rightarrow> py_error + piano" where
  "process_hands hands now s =
     (case get_current_chords s of
        Inl e \<Rightarrow> Inl e
      | Inr chords \<Rightarrow>
          (case hands_loop hands chords now (s, all_down chords, [], False) of
             Inl e \<Rightarrow> Inl e
           | Inr (s1, current_finger_states, keys, pinching) \<Rightarrow>
               let s2 = s1\<lparr>active_keys := keys\<rparr>;
                   s3 = (if \<not> pinching \<and> pinch_chord_playing s2 then
                           let s4 = pinch_stop_loop (pinch_chord_notes s2) s2;
                               s5 = s4\<lparr>pinch_chord_playing := False\<rparr>
                           in send_pitch_bend 8192 s5
                         else s2)
               in Inr (s3\<lparr>prev_states := current_finger_states\<rparr>)))"

section \<open>The main loop: frames, keys, background work, shutdown\<close>

text \<open>The \<^verbatim>\<open>else\<close> branch of \<^verbatim>\<open>run\<close>: no hand in the frame.\<close>

definition no_hands :: "piano \<Rightarrow> py_error + piano" where
  "no_hands s =
     (case get_current_chords s of
        Inl e \<Rightarrow> Inl e
      | Inr chords \<Rightarrow>
          let s1 = s\<lparr>prev_states := all_down chords\<rparr>;
              s2 = s1\<lparr>active_keys := []\<rparr>;
              s3 = stop_all (active_notes s2) s2
          in if pinch_chord_playing s3
             then Inr (send_pitch_bend 8192 (s3\<lparr>pinch_chord_playing := False\<rparr>))
             else Inr s3)"

text \<open>
  One frame of \<^verbatim>\<open>run\<close>: the hands the detector found, then \<^verbatim>\<open>draw_enhanced_ui\<close>,
  of which only the update of \<^verbatim>\<open>self.screen_width\<close> to the frame's width matters here.
\<close>

definition run_frame :: "int \<Rightarrow> hand list \<Rightarrow> real \<Rightarrow> piano \<Rightarrow> py_error + piano" where
  "run_frame width hands now s =
     (case (if hands \<noteq> [] then process_hands hands now s else no_hands s) of
        Inl e \<Rightarrow> Inl e
      | Inr s1 \<Rightarrow> Inr (s1\<lparr>screen_width := width\<rparr>))"

text \<open>\<^verbatim>\<open>xs.index(x)\<close>: the first position of \<open>x\<close>, ValueError when there is none.\<close>

fun list_index :: "'a list \<Rightarrow> 'a \<Rightarrow> py_error + nat" where
  "list_index [] x = Inl ValueError"
| "list_index (y # ys) x =
     (if y = x then Inr 0
      else case list_index ys x of Inl e \<Rightarrow> Inl e | Inr i \<Rightarrow> Inr (Suc i))"

definition cycle_scale :: "piano \<Rightarrow> py_error + piano" where
  "cycle_scale s =
     (let scale_names = map fst (scales s)
      in case list_index scale_names (current_scale s) of
           Inl e \<Rightarrow> Inl e
         | Inr current_idx \<Rightarrow>
             let s1 = s\<lparr>current_scale := scale_names ! ((current_idx + 1) mod length scale_names)\<rparr>
             in case dict_get (scales s1) (current_scale s1) of
                  Inl e \<Rightarrow> Inl e
                | Inr chords \<Rightarrow>
                    let s2 = s1\<lparr>prev_states := all_down chords\<rparr>
                    in Inr (s2\<lparr>active_keys := []\<rparr>))"

definition toggle_recording :: "real \<Rightarrow> piano \<Rightarrow> piano" where
  "toggle_recording now s =
     (if \<not> recording s
      then s\<lparr>recording := True, recorded_notes := [], recording_start_time := Some now\<rparr>
      else s\<lparr>recording := False\<rparr>)"

text \<open>The replay loop of the playback thread, without its waiting.\<close>

fun playback_events :: "recorded_event list \<Rightarrow> piano \<Rightarrow> piano" where
  "playback_events [] s = s"
| "playback_events (event # rest) s =
     (if ev_action event = ''on'' then
        let s1 = play_single_note (ev_note event) (ev_velocity event) s
        in playback_events rest (s1\<lparr>active_notes := set_add (ev_note event) (active_notes s1)\<rparr>)
      else
        let s1 = player_note_off (ev_note event) (ev_velocity event) s
        in playback_events rest (s1\<lparr>active_notes := set_discard (ev_note event) (active_notes s1)\<rparr>))"

definition playback_thread_func :: "piano \<Rightarrow> piano" where
  "playback_thread_func s =
     (let s1 = stop_all (active_notes s) s;
          s2 = s1\<lparr>active_keys := []\<rparr>;
          s3 = playback_events (recorded_notes s2) s2
      in stop_all (active_notes s3) s3)"

text \<open>The playback thread is alive from its start until it has run.\<close>

definition playback_recording :: "piano \<Rightarrow> piano" where
  "playback_recording s =
     (if recorded_notes s = [] then s
      else if PlaybackThread \<in> set (background s) then s
      else s\<lparr>background := background s @ [PlaybackThread]\<rparr>)"

text \<open>
  \<^verbatim>\<open>handle_keyboard_input\<close>, the key as the code \<^verbatim>\<open>ord\<close> gives. The fullscreen
  toggle (\<^verbatim>\<open>'f'\<close>, 102) only resizes the window; choosing an instrument sends a
  program change, which is outside the messages followed here.
\<close>

definition handle_keyboard_input :: "int \<Rightarrow> real \<Rightarrow> piano \<Rightarrow> py_error + piano" where
  "handle_keyboard_input key now s =
     (if key = 102 then Inr s
      else if key = 115 then cycle_scale s
      else if key = 114 then Inr (toggle_recording now s)
      else if key = 112 then Inr (playback_recording s)
      else if key = 101 then Inr (s\<lparr>echo_enabled := \<not> echo_enabled s\<rparr>)
      else if key = 43 \<or> key = 61 then
        Inr (s\<lparr>velocity_multiplier := min 2.0 (velocity_multiplier s + 0.1)\<rparr>)
      else if key = 45 then
        Inr (s\<lparr>velocity_multiplier := max 0.1 (velocity_multiplier s - 0.1)\<rparr>)
      else if 49 \<le> key \<and> key \<le> 57 then
        (let idx = nat (key - 49)
         in if idx < length (instruments s)
            then Inr (s\<lparr>current_instrument := instruments s ! idx\<rparr>)
            else Inr s)
      else Inr s)"

text \<open>The first loop of \<^verbatim>\<open>cleanup\<close>, then \<^verbatim>\<open>self.active_notes.clear()\<close>.\<close>

fun notes_off :: "int list \<Rightarrow> piano \<Rightarrow> piano" where
  "notes_off [] s = s"
| "notes_off (note # rest) s = notes_off rest (player_note_off note 127 s)"

definition cleanup :: "piano \<Rightarrow> piano" where
  "cleanup s = (notes_off (active_notes s) s)\<lparr>active_notes := []\<rparr>"

text \<open>Running one piece of background work.\<close>

fun run_task :: "task \<Rightarrow> real \<Rightarrow> piano \<Rightarrow> py_error + piano" where
  "run_task (EchoTimer n v factor) now s = Inr (echo_fire n v factor s)"
| "run_task (SustainThread chord_notes) now s = stop_after_delay chord_notes now s"
| "run_task PlaybackThread now s = Inr (playback_thread_func s)"

text \<open>
  What can happen to the piano: a camera frame (its width and hands), a key press, the
  \<open>i\<close>-th piece of background work running, and the shutdown that \<^verbatim>\<open>run\<close> ends
  with. Each one is a step at the time \<open>now\<close>.
\<close>

datatype event = Frame int "hand list" | Key int | Fire nat | Shutdown

fun step :: "event \<Rightarrow> real \<Rightarrow> piano \<Rightarrow> py_error + piano" where
  "step (Frame width hands) now s = run_frame width hands now s"
| "step (Key key) now s = handle_keyboard_input key now s"
| "step (Fire i) now s =
     (if i < length (background s)
      then run_task (background s ! i) now
             (s\<lparr>background := take i (background s) @ drop (Suc i) (background s)\<rparr>)
      else Inr s)"
| "step Shutdown now s = Inr (cleanup s)"

text \<open>A run: the events in order, each with its time, stopping at the first exception.\<close>

fun steps :: "(event \<times> real) list \<Rightarrow> piano \<Rightarrow> py_error + piano" where
  "steps [] s = Inr s"
| "steps ((ev, now) # rest) s =
     (case step ev now s of Inl e \<Rightarrow> Inl e | Inr s1 \<Rightarrow> steps rest s1)"

text \<open>What a step sent to the synthesizer: the messages after those already sent.\<close>

definition sent :: "piano \<Rightarrow> piano \<Rightarrow> midi_msg list" where
  "sent s s' = drop (length (midi_out s)) (midi_out s')"

section \<open>The active notes and the MIDI stream\<close>

text \<open>
  What a message does to the set of sounding notes, and the test that a stretch of
  messages never switches on a note that is on at that moment.
\<close>

definition apply_msg :: "midi_msg \<Rightarrow> int set \<Rightarrow> int set" where
  "apply_msg m A = (case m of NoteOn n v \<Rightarrow> insert n A | NoteOff n v \<Rightarrow> A - {n} | WriteShort a b c \<Rightarrow> A)"

definition is_fresh :: "midi_msg \<Rightarrow> int set \<Rightarrow> bool" where
  "is_fresh m A = (case m of NoteOn n v \<Rightarrow> n \<notin> A | NoteOff n v \<Rightarrow> True | WriteShort a b c \<Rightarrow> True)"

fun fresh_ons :: "midi_msg list \<Rightarrow> int set \<Rightarrow> bool" where
  "fresh_ons [] A = True"
| "fresh_ons (m # ms) A = (is_fresh m A \<and> fresh_ons ms (apply_msg m A))"

text \<open>
  \<open>follows strict s s'\<close>: from \<open>s\<close> to \<open>s'\<close> the player stays, the list of active
  notes stays free of repetitions, messages are only added, and with a player the
  active notes of \<open>s'\<close> are those of \<open>s\<close> after the added messages; when \<open>strict\<close>,
  no added note-on is for a note that was on.
\<close>

definition follows :: "bool \<Rightarrow> piano \<Rightarrow> piano \<Rightarrow> bool" where
  "follows strict s s' \<longleftrightarrow>
     player s' = player s \<and>
     (distinct (active_notes s) \<longrightarrow> distinct (active_notes s')) \<and>
     (\<exists>ms. midi_out s' = midi_out s @ ms \<and>
        (player s \<longrightarrow>
           set (active_notes s') = fold apply_msg ms (set (active_notes s)) \<and>
           (strict \<longrightarrow> fresh_ons ms (set (active_notes s)))))"

text \<open>The background work that re-sends a note-on: an echo timer or the playback thread.\<close>

definition resends :: "event \<Rightarrow> piano \<Rightarrow> bool" where
  "resends ev s =
     (case ev of
        Fire i \<Rightarrow> i < length (background s) \<and>
                  (case background s ! i of SustainThread c \<Rightarrow> False | _ \<Rightarrow> True)
      | _ \<Rightarrow> False)"

section \<open>Example inputs\<close>

text \<open>
  A right hand whose thumb and index tips touch, both reported up, with its bounding box
  centred at x = 640, the middle of the default 1280 pixel wide frame.
\<close>

definition pinching_hand :: hand where
  "pinching_hand = \<lparr>hand_type = ''Right'', lmList = replicate 21 (600, 300, 0),
                     bbox = (540, 200, 200, 220), fingersUp = [1, 1, 0, 0, 0]\<rparr>"

text \<open>
  A piano that is recording since time 10, with a D major chord and the note 74 sounding.
\<close>

definition sounding_piano :: piano where
  "sounding_piano = initial_piano\<lparr>active_notes := [62, 66, 69, 74],
      midi_out := [NoteOn 62 90, NoteOn 66 90, NoteOn 69 90, NoteOn 74 90],
      recording := True, recording_start_time := Some 10\<rparr>"

text \<open>A left hand with only the thumb up, and the same hand with every finger down.\<close>

definition left_thumb_up :: hand where
  "left_thumb_up = \<lparr>hand_type = ''Left'', lmList = replicate 21 (300, 400, 0),
                     bbox = (250, 300, 100, 200), fingersUp = [1, 0, 0, 0, 0]\<rparr>"

definition left_fist :: hand where
  "left_fist = \<lparr>hand_type = ''Left'', lmList = replicate 21 (300, 400, 0),
                 bbox = (250, 300, 100, 200), fingersUp = [0, 0, 0, 0, 0]\<rparr>"

text \<open>A right hand with only the little finger up.\<close>

definition right_pinky_up :: hand where
  "right_pinky_up = \<lparr>hand_type = ''Right'', lmList = replicate 21 (900, 400, 0),
                      bbox = (850, 300, 100, 200), fingersUp = [0, 0, 0, 0, 1]\<rparr>"

section \<open>The chord name\<close>

lemma digit_char_isdigit: "d < 10 \<Longrightarrow> isdigit (digit_char d)"
proof -
  assume "d < 10"
  then have "d \<in> {0,1,2,3,4,5,6,7,8,9}" by (simp only: insert_iff empty_iff) arith
  then show ?thesis by (auto simp: isdigit_def digit_char_def)
qed

lemma str_nat_isdigit: "c \<in> set (str_nat n) \<Longrightarrow> isdigit c"
proof (induction n rule: str_nat.induct)
  case (1 n)
  show ?case
  proof (cases "n < 10")
    case True
    with "1.prems" show ?thesis
      by (simp add: str_nat.simps [of n] digit_char_isdigit)
  next
    case False
    with "1.prems" "1.IH" show ?thesis
      by (auto simp: str_nat.simps [of n] digit_char_isdigit)
  qed
qed

lemma strip_octave_py_str: "strip_octave (py_str k) = []"
  by (auto simp: strip_octave_def py_str_def filter_empty_conv dest: str_nat_isdigit)

lemma strip_octave_append: "strip_octave (a @ b) = strip_octave a @ strip_octave b"
  by (simp add: strip_octave_def)

lemma strip_octave_note_name: "i < 12 \<Longrightarrow> strip_octave (note_names ! i) = note_names ! i"
proof -
  assume "i < 12"
  then have "i \<in> {0,1,2,3,4,5,6,7,8,9,10,11}" by (simp only: insert_iff empty_iff) arith
  then show ?thesis by (auto simp: strip_octave_def note_names_def isdigit_def)
qed

lemma note_to_name_ok: "note_to_name n = Inr (pitch_class_name n @ py_str (n div 12 - 1))"
proof -
  have "0 \<le> n mod 12" "n mod 12 < 12" by simp_all
  then show ?thesis
    by (simp add: note_to_name_def py_index_def pitch_class_name_def note_names_def Let_def)
qed

lemma root_name_ok: "strip_octave (pitch_class_name n @ py_str k) = pitch_class_name n"
proof -
  have "nat (n mod 12) < 12" by simp
  then show ?thesis
    unfolding strip_octave_append strip_octave_py_str pitch_class_name_def
    by (simp add: strip_octave_note_name)
qed

lemma py_index_in: "i < length xs \<Longrightarrow> py_index xs (int i) = Inr (xs ! i)"
  by (simp add: py_index_def Let_def)

text \<open>
  C6. For a nonempty list of notes \<^verbatim>\<open>get_chord_name\<close> raises nothing and returns the
  pitch-class name of the lowest note, alone for one note, followed for two notes by
  m3, M3 or P5 when the interval is 3, 4 or 7 and by Pair otherwise, and for three or
  more notes by Maj, Min, Sus4 or Sus2 when the first two intervals of the sorted list
  are (4,3), (3,4), (5,2) or (2,5) and by Triad otherwise. The notes 60, 64, 67 are
  named "C Maj".
\<close>

theorem get_chord_name_from_root:
  assumes "notes \<noteq> []"
  shows "\<exists>name. get_chord_name notes = Inr name \<and>
     (let s = sort notes; root = pitch_class_name (s ! 0) in
      (length notes = 1 \<longrightarrow> name = root) \<and>
      (length notes = 2 \<longrightarrow> name = root @
          (if s ! 1 - s ! 0 = 3 then '' m3''
           else if s ! 1 - s ! 0 = 4 then '' M3''
           else if s ! 1 - s ! 0 = 7 then '' P5'' else '' Pair'')) \<and>
      (3 \<le> length notes \<longrightarrow> name = root @
          (if s ! 1 - s ! 0 = 4 \<and> s ! 2 - s ! 1 = 3 then '' Maj''
           else if s ! 1 - s ! 0 = 3 \<and> s ! 2 - s ! 1 = 4 then '' Min''
           else if s ! 1 - s ! 0 = 5 \<and> s ! 2 - s ! 1 = 2 then '' Sus4''
           else if s ! 1 - s ! 0 = 2 \<and> s ! 2 - s ! 1 = 5 then '' Sus2'' else '' Triad'')))
     \<and> get_chord_name [60, 64, 67] = Inr ''C Maj''"
proof -
  define s where "s = sort notes"
  have len: "length s = length notes" by (simp add: s_def)
  from assms have pos: "0 < length s" by (simp add: len)
  have i0: "py_index s 0 = Inr (s ! 0)" using py_index_in [of 0 s] pos by simp
  have i1: "2 \<le> length s \<Longrightarrow> py_index s 1 = Inr (s ! 1)" using py_index_in [of 1 s] by simp
  have i2: "3 \<le> length s \<Longrightarrow> py_index s 2 = Inr (s ! 2)" using py_index_in [of 2 s] by simp
  consider "length s = 1" | "length s = 2" | "3 \<le> length s" using pos by linarith
  then have gen: "\<exists>name. get_chord_name notes = Inr name \<and>
     (let s = sort notes; root = pitch_class_name (s ! 0) in
      (length notes = 1 \<longrightarrow> name = root) \<and>
      (length notes = 2 \<longrightarrow> name = root @
          (if s ! 1 - s ! 0 = 3 then '' m3''
           else if s ! 1 - s ! 0 = 4 then '' M3''
           else if s ! 1 - s ! 0 = 7 then '' P5'' else '' Pair'')) \<and>
      (3 \<le> length notes \<longrightarrow> name = root @
          (if s ! 1 - s ! 0 = 4 \<and> s ! 2 - s ! 1 = 3 then '' Maj''
           else if s ! 1 - s ! 0 = 3 \<and> s ! 2 - s ! 1 = 4 then '' Min''
           else if s ! 1 - s ! 0 = 5 \<and> s ! 2 - s ! 1 = 2 then '' Sus4''
           else if s ! 1 - s ! 0 = 2 \<and> s ! 2 - s ! 1 = 5 then '' Sus2'' else '' Triad'')))"
  proof cases
    case 1
    then show ?thesis
      using assms i0 len
      by (simp add: get_chord_name_def s_def [symmetric] note_to_name_ok root_name_ok Let_def)
  next
    case 2
    then show ?thesis
      using assms i0 i1 len
      by (simp add: get_chord_name_def s_def [symmetric] note_to_name_ok root_name_ok Let_def)
  next
    case 3
    then show ?thesis
      using assms i0 i1 i2 len
      by (simp add: get_chord_name_def s_def [symmetric] note_to_name_ok root_name_ok Let_def)
  qed
  have "get_chord_name [60, 64, 67] = Inr (pitch_class_name 60 @ '' Maj'')"
    by (simp add: get_chord_name_def note_to_name_ok root_name_ok Let_def py_index_def)
  then have ex: "get_chord_name [60, 64, 67] = Inr ''C Maj''"
    by (simp add: pitch_class_name_def note_names_def)
  from gen ex show ?thesis by blast
qed

theorem get_chord_name_from_root_witness:
  "get_chord_name [62, 69, 66] = Inr ''D Maj'' \<and> get_chord_name [67, 60] = Inr ''C P5''"
proof -
  have a: "[62, 69, 66] \<noteq> ([]::int list)" and b: "[67, 60] \<noteq> ([]::int list)" by simp_all
  show ?thesis
    using get_chord_name_from_root [OF a] get_chord_name_from_root [OF b]
    by (simp add: Let_def pitch_class_name_def note_names_def)
qed

section \<open>A frame with the left thumb raised\<close>

lemma not_pinching_thumb: "\<not> is_pinching left_thumb_up s"
  by (simp add: is_pinching_def left_thumb_up_def Let_def)

lemma velocity_thumb: "calculate_dynamic_velocity 1 (Some (lmList left_thumb_up)) 0 = 20"
  by (simp add: calculate_dynamic_velocity_def left_thumb_up_def finger_landmarks_def xy_def euclid_def
      np_clip_def py_int_def Let_def)

lemma press_D: "play_chord_enhanced [62, 66, 69] 20 now initial_piano =
   Inr (initial_piano\<lparr>active_notes := [62, 66, 69], midi_out := [NoteOn 62 20, NoteOn 66 20, NoteOn 69 20]\<rparr>)"
  by (simp add: play_chord_enhanced_def initial_piano_def play_single_note_def set_add_def Let_def)

lemma press_D_echo: "play_chord_enhanced [62, 66, 69] 20 now (initial_piano\<lparr>echo_enabled := True\<rparr>) =
   Inr (initial_piano\<lparr>echo_enabled := True, active_notes := [62, 66, 69],
          midi_out := [NoteOn 62 20, NoteOn 66 20, NoteOn 69 20],
          background := [EchoTimer 62 20 0.7, EchoTimer 62 20 0.4]\<rparr>)"
  by (simp add: play_chord_enhanced_def initial_piano_def play_single_note_def set_add_def Let_def)

lemma thumb_fingers:
  assumes "prev_states s = all_down D_Major" and "velocity_multiplier s = 1"
    and "play_chord_enhanced [62, 66, 69] 20 now s = Inr s1"
    and "prev_states s1 = all_down D_Major"
  shows "finger_loop 0 finger_names left_thumb_up ''left'' D_Major now (s, all_down D_Major, []) =
     Inr (s1,
          [(''left'', [(''thumb'', 1), (''index'', 0), (''middle'', 0), (''ring'', 0), (''pinky'', 0)]),
           (''right'', [(''thumb'', 0), (''index'', 0), (''middle'', 0), (''ring'', 0), (''pinky'', 0)])],
          [''left_thumb''])"
  by (simp add: finger_names_def finger_step_def finger_edge_def D_Major_def all_down_def dict_get_def
      dict_get2_def assms [unfolded all_down_def D_Major_def, simplified] velocity_thumb
      set_add_def Let_def left_thumb_up_def [THEN arg_cong [where f = fingersUp]])

lemma thumb_frame_from:
  assumes "prev_states s = all_down D_Major" and "velocity_multiplier s = 1"
    and "play_chord_enhanced [62, 66, 69] 20 now s = Inr s1"
    and "prev_states s1 = all_down D_Major"
    and "current_scale s = ''D_Major''" and "scales s = initial_scales"
    and "\<not> pinch_chord_playing s1"
  shows "run_frame w [left_thumb_up] now s =
     Inr (s1\<lparr>active_keys := [''left_thumb''],
            prev_states := [(''left'', [(''thumb'', 1), (''index'', 0), (''middle'', 0), (''ring'', 0), (''pinky'', 0)]),
                            (''right'', [(''thumb'', 0), (''index'', 0), (''middle'', 0), (''ring'', 0), (''pinky'', 0)])],
            screen_width := w\<rparr>)"
proof -
  have hp: "handle_pinch_gesture left_thumb_up now s = Inr (False, s)"
    by (simp add: handle_pinch_gesture_def not_pinching_thumb)
  have ch: "get_current_chords s = Inr D_Major"
    by (simp add: get_current_chords_def assms initial_scales_def dict_get_def)
  show ?thesis
    by (simp add: run_frame_def process_hands_def ch hp thumb_fingers [OF assms(1-4)] assms(7) Let_def
        left_thumb_up_def [THEN arg_cong [where f = hand_type]])
qed

lemma thumb_frame:
  "run_frame 1280 [left_thumb_up] now initial_piano =
     Inr (initial_piano\<lparr>active_notes := [62, 66, 69], active_keys := [''left_thumb''],
            prev_states := [(''left'', [(''thumb'', 1), (''index'', 0), (''middle'', 0), (''ring'', 0), (''pinky'', 0)]),
                            (''right'', [(''thumb'', 0), (''index'', 0), (''middle'', 0), (''ring'', 0), (''pinky'', 0)])],
            midi_out := [NoteOn 62 20, NoteOn 66 20, NoteOn 69 20]\<rparr>)"
proof -
  have "run_frame 1280 [left_thumb_up] now initial_piano =
     Inr (initial_piano\<lparr>active_notes := [62, 66, 69], midi_out := [NoteOn 62 20, NoteOn 66 20, NoteOn 69 20]\<rparr>
          \<lparr>active_keys := [''left_thumb''],
            prev_states := [(''left'', [(''thumb'', 1), (''index'', 0), (''middle'', 0), (''ring'', 0), (''pinky'', 0)]),
                            (''right'', [(''thumb'', 0), (''index'', 0), (''middle'', 0), (''ring'', 0), (''pinky'', 0)])],
            screen_width := 1280\<rparr>)"
    by (rule thumb_frame_from [OF _ _ press_D]) (simp_all add: initial_piano_def)
  then show ?thesis by (simp add: initial_piano_def)
qed

lemma thumb_frame_echo:
  "run_frame 1280 [left_thumb_up] now (initial_piano\<lparr>echo_enabled := True\<rparr>) =
     Inr (initial_piano\<lparr>echo_enabled := True, active_notes := [62, 66, 69], active_keys := [''left_thumb''],
            prev_states := [(''left'', [(''thumb'', 1), (''index'', 0), (''middle'', 0), (''ring'', 0), (''pinky'', 0)]),
                            (''right'', [(''thumb'', 0), (''index'', 0), (''middle'', 0), (''ring'', 0), (''pinky'', 0)])],
            midi_out := [NoteOn 62 20, NoteOn 66 20, NoteOn 69 20],
            background := [EchoTimer 62 20 0.7, EchoTimer 62 20 0.4]\<rparr>)"
proof -
  have "run_frame 1280 [left_thumb_up] now (initial_piano\<lparr>echo_enabled := True\<rparr>) =
     Inr (initial_piano\<lparr>echo_enabled := True, active_notes := [62, 66, 69],
          midi_out := [NoteOn 62 20, NoteOn 66 20, NoteOn 69 20],
          background := [EchoTimer 62 20 0.7, EchoTimer 62 20 0.4]\<rparr>
          \<lparr>active_keys := [''left_thumb''],
            prev_states := [(''left'', [(''thumb'', 1), (''index'', 0), (''middle'', 0), (''ring'', 0), (''pinky'', 0)]),
                            (''right'', [(''thumb'', 0), (''index'', 0), (''middle'', 0), (''ring'', 0), (''pinky'', 0)])],
            screen_width := 1280\<rparr>)"
    by (rule thumb_frame_from [OF _ _ press_D_echo]) (simp_all add: initial_piano_def)
  then show ?thesis by (simp add: initial_piano_def)
qed

section \<open>The velocity model\<close>

lemma np_clip_bounds: "lo \<le> hi \<Longrightarrow> lo \<le> np_clip x lo hi \<and> np_clip x lo hi \<le> hi"
  by (auto simp: np_clip_def min_def max_def)

lemma finger_landmarks_None:
  "finger_index \<notin> {0, 1, 2, 3, 4} \<Longrightarrow> map_of finger_landmarks finger_index = None"
  by (simp add: finger_landmarks_def)

text \<open>
  C5. \<^verbatim>\<open>calculate_dynamic_velocity\<close> is a function of the velocity multiplier, the
  landmark list and the finger index alone, and it changes nothing. With a multiplier
  between 0.1 and 2.0 its result lies between 20 and 127; when the landmarks are missing,
  when there are fewer than 21 of them, or when the finger index is not one of 0 to 4, the
  result is the default 80. (The bounds come from the final clip, so they do not depend
  on how the square root and the power are rounded.)
\<close>

theorem calculate_dynamic_velocity_range:
  "(0.1 \<le> m \<and> m \<le> 2.0 \<longrightarrow>
      20 \<le> calculate_dynamic_velocity m lms fi \<and> calculate_dynamic_velocity m lms fi \<le> 127) \<and>
   ((lms = None \<or> (\<exists>l. lms = Some l \<and> length l < 21) \<or> fi \<notin> {0, 1, 2, 3, 4}) \<longrightarrow>
      calculate_dynamic_velocity m lms fi = 80)"
proof -
  have range: "20 \<le> calculate_dynamic_velocity m lms fi \<and> calculate_dynamic_velocity m lms fi \<le> 127"
    using np_clip_bounds [of "20::int" 127]
    by (simp add: calculate_dynamic_velocity_def Let_def split: option.splits prod.splits)
  have dflt: "calculate_dynamic_velocity m lms fi = 80"
    if "lms = None \<or> (\<exists>l. lms = Some l \<and> length l < 21) \<or> fi \<notin> {0, 1, 2, 3, 4}"
    using that finger_landmarks_None [of fi]
    by (auto simp: calculate_dynamic_velocity_def Let_def split: option.splits)
  from range dflt show ?thesis by blast
qed

theorem calculate_dynamic_velocity_range_witness:
  "(0.1::real) \<le> 1 \<and> (1::real) \<le> 2.0 \<and>
   20 \<le> calculate_dynamic_velocity 1 (Some (replicate 21 (7, 9, 0))) 2 \<and>
   calculate_dynamic_velocity 1 (Some (replicate 21 (7, 9, 0))) 2 \<le> 127 \<and>
   calculate_dynamic_velocity 2 None 1 = 80 \<and>
   calculate_dynamic_velocity 2 (Some (replicate 20 (0, 0, 0))) 1 = 80 \<and>
   calculate_dynamic_velocity 2 (Some (replicate 21 (7, 9, 0))) 5 = 80"
proof -
  have m: "(0.1::real) \<le> 1 \<and> (1::real) \<le> 2.0" by simp
  have l: "\<exists>l. Some (replicate 20 (0, 0, 0)) = Some l \<and> length l < 21" by simp
  have f: "(5::int) \<notin> {0, 1, 2, 3, 4}" by simp
  show ?thesis
    using calculate_dynamic_velocity_range [of 1 "Some (replicate 21 (7, 9, 0))" 2] m
      calculate_dynamic_velocity_range [of 2 None 1]
      calculate_dynamic_velocity_range [of 2 "Some (replicate 20 (0, 0, 0))" 1] l
      calculate_dynamic_velocity_range [of 2 "Some (replicate 21 (7, 9, 0))" 5] f
    by blast
qed

section \<open>The pinch gesture\<close>

lemma record_event_frame:
  "record_event n v a now s = Inr s' \<Longrightarrow>
     player s' = player s \<and> screen_width s' = screen_width s \<and> midi_out s' = midi_out s \<and>
     active_notes s' = active_notes s \<and> recording s' = recording s \<and>
     recording_start_time s' = recording_start_time s \<and> background s' = background s"
  by (auto simp: record_event_def split: option.splits)

lemma pinch_chord_loop_frame:
  "pinch_chord_loop ns now s = Inr s' \<Longrightarrow> player s' = player s \<and> screen_width s' = screen_width s"
proof (induction ns arbitrary: s)
  case Nil
  then show ?case by simp
next
  case (Cons n ns)
  show ?case
  proof (cases "n \<in> set (active_notes s)")
    case True
    with Cons show ?thesis by simp
  next
    case False
    let ?s2 = "(play_single_note n 120 s)\<lparr>active_notes := set_add n (active_notes (play_single_note n 120 s))\<rparr>"
    have fr: "player ?s2 = player s \<and> screen_width ?s2 = screen_width s"
      by (simp add: play_single_note_def)
    show ?thesis
    proof (cases "recording ?s2")
      case True
      with Cons.prems False obtain s3 where
        r: "record_event n 120 ''on'' now ?s2 = Inr s3" and l: "pinch_chord_loop ns now s3 = Inr s'"
        by (auto simp: Let_def split: sum.splits)
      from Cons.IH [OF l] record_event_frame [OF r] fr show ?thesis by simp
    next
      case rec: False
      with Cons.prems False have "pinch_chord_loop ns now ?s2 = Inr s'"
        by (simp add: Let_def)
      from Cons.IH [OF this] fr show ?thesis by simp
    qed
  qed
qed

lemma pitch_bend_value_eq:
  assumes "pitch_bend_value h s = Inr v" and "bbox h = (x, y, w, ht)"
  shows "v = \<lfloor>np_clip (real_of_int (x + w div 2) / real_of_int (screen_width s)) 0 1 * 16383\<rfloor>
         \<and> 0 \<le> v \<and> v \<le> 16383 \<and> (2 * (x + w div 2) = screen_width s \<longrightarrow> v = 8191)"
proof -
  define c where "c = np_clip (real_of_int (x + w div 2) / real_of_int (screen_width s)) 0 1"
  have c: "0 \<le> c" "c \<le> 1" by (simp_all add: c_def np_clip_def)
  from assms have nz: "screen_width s \<noteq> 0" and v: "v = py_int (c * 16383)"
    by (auto simp: pitch_bend_value_def Let_def c_def split: if_splits)
  from c have nn: "0 \<le> c * 16383" by simp
  with v have vf: "v = \<lfloor>c * 16383\<rfloor>" by (simp add: py_int_def)
  from nn have lo: "0 \<le> \<lfloor>c * 16383\<rfloor>" by simp
  from c have "c * 16383 \<le> 16383" by simp
  then have hi: "\<lfloor>c * 16383\<rfloor> \<le> 16383" by (simp add: floor_le_iff)
  have mid: "\<lfloor>c * 16383\<rfloor> = 8191" if "2 * (x + w div 2) = screen_width s"
  proof -
    define cx where "cx = x + w div 2"
    from that nz have cx: "cx \<noteq> 0" by (auto simp: cx_def)
    from that have "real_of_int (screen_width s) = 2 * real_of_int cx"
      unfolding cx_def by (metis of_int_mult of_int_numeral)
    with cx have "real_of_int cx / real_of_int (screen_width s) = 1 / 2" by simp
    moreover have "c = np_clip (real_of_int cx / real_of_int (screen_width s)) 0 1"
      by (simp only: c_def cx_def)
    ultimately have "c = 1 / 2" by (simp add: np_clip_def)
    then have "c * 16383 = 16383 / 2" by simp
    then show ?thesis by (simp only:) simp
  qed
  from vf lo hi mid show ?thesis unfolding c_def by blast
qed

text \<open>
  C7. When \<^verbatim>\<open>handle_pinch_gesture\<close> finds the hand pinching, the last message it sends
  is the pitch bend whose 14-bit value is the hand's bounding-box centre \<open>x + w div 2\<close>
  divided by the screen width, clipped to [0, 1], multiplied by 16383 and truncated. The
  value lies in [0, 16383], and when the centre is half the screen width it is 8191.
\<close>

theorem pinch_pitch_bend:
  assumes "handle_pinch_gesture h now s = Inr (True, s')" and "player s"
  shows "\<exists>x y w ht v. bbox h = (x, y, w, ht) \<and>
           v = \<lfloor>np_clip (real_of_int (x + w div 2) / real_of_int (screen_width s)) 0 1 * 16383\<rfloor> \<and>
           0 \<le> v \<and> v \<le> 16383 \<and>
           midi_out s' \<noteq> [] \<and>
           last (midi_out s') = WriteShort 224 (v AND 127) (drop_bit 7 v AND 127) \<and>
           (2 * (x + w div 2) = screen_width s \<longrightarrow> v = 8191)"
proof -
  obtain x y w ht where bb: "bbox h = (x, y, w, ht)" by (cases "bbox h") auto
  from assms(1) obtain s2 v where
    s2: "(if \<not> pinch_chord_playing s then
            (case pinch_chord_loop (pinch_chord_notes s) now s of
               Inl e \<Rightarrow> Inl e | Inr s1 \<Rightarrow> Inr (s1\<lparr>pinch_chord_playing := True\<rparr>))
          else Inr s) = Inr s2"
    and v: "pitch_bend_value h s2 = Inr v" and s': "s' = send_pitch_bend v s2"
    by (auto simp: handle_pinch_gesture_def split: if_splits sum.splits)
  from s2 have fr: "player s2 = player s \<and> screen_width s2 = screen_width s"
    by (auto split: if_splits sum.splits dest: pinch_chord_loop_frame)
  have val: "v = \<lfloor>np_clip (real_of_int (x + w div 2) / real_of_int (screen_width s)) 0 1 * 16383\<rfloor>
         \<and> 0 \<le> v \<and> v \<le> 16383 \<and> (2 * (x + w div 2) = screen_width s \<longrightarrow> v = 8191)"
    using pitch_bend_value_eq [OF v bb] unfolding conjunct2 [OF fr] .
  from s' fr assms(2) have out: "midi_out s' \<noteq> [] \<and>
      last (midi_out s') = WriteShort 224 (v AND 127) (drop_bit 7 v AND 127)"
    by (simp add: send_pitch_bend_def Let_def)
  from bb val out show ?thesis by blast
qed

lemma is_pinching_example: "is_pinching pinching_hand initial_piano"
  by (simp add: is_pinching_def pinching_hand_def initial_piano_def xy_def euclid_def Let_def)

lemma pinch_onset_example: "handle_pinch_gesture pinching_hand 0 initial_piano =
     Inr (True, initial_piano\<lparr>active_notes := [84, 88, 91], pinch_chord_playing := True,
                midi_out := [NoteOn 84 120, NoteOn 88 120, NoteOn 91 120, WriteShort 224 127 63]\<rparr>)"
  apply (simp add: handle_pinch_gesture_def is_pinching_example)
  apply (simp add: pinching_hand_def initial_piano_def play_single_note_def set_add_def
       pitch_bend_value_def np_clip_def py_int_def send_pitch_bend_def Let_def)
  done

theorem pinch_pitch_bend_witness:
  "player initial_piano \<and>
   handle_pinch_gesture pinching_hand 0 initial_piano =
     Inr (True, initial_piano\<lparr>active_notes := [84, 88, 91], pinch_chord_playing := True,
                midi_out := [NoteOn 84 120, NoteOn 88 120, NoteOn 91 120, WriteShort 224 127 63]\<rparr>) \<and>
   (\<exists>v. [NoteOn 84 120, NoteOn 88 120, NoteOn 91 120, WriteShort 224 127 63] \<noteq> [] \<and>
        last [NoteOn 84 120, NoteOn 88 120, NoteOn 91 120, WriteShort 224 127 63] =
          WriteShort 224 (v AND 127) (drop_bit 7 v AND 127) \<and> v = 8191)"
proof -
  have p: "player initial_piano" by (simp add: initial_piano_def)
  have c: "2 * (540 + 200 div 2) = screen_width initial_piano" by (simp add: initial_piano_def)
  from pinch_pitch_bend [OF pinch_onset_example p] c
  have "\<exists>v. [NoteOn 84 120, NoteOn 88 120, NoteOn 91 120, WriteShort 224 127 63] \<noteq> [] \<and>
        last [NoteOn 84 120, NoteOn 88 120, NoteOn 91 120, WriteShort 224 127 63] =
          WriteShort 224 (v AND 127) (drop_bit 7 v AND 127) \<and> v = 8191"
    by (auto simp: pinching_hand_def)
  with p pinch_onset_example show ?thesis by blast
qed

section \<open>Changing the scale\<close>

lemma map_of_all_down:
  "map_of (all_down chords) side = map_option (map (\<lambda>(finger, c). (finger, 0))) (map_of chords side)"
  by (simp add: all_down_def map_of_map)

lemma map_of_zero_row:
  "map_of (map (\<lambda>(finger, c). (finger, 0::int)) fm) finger = map_option (\<lambda>c. 0) (map_of fm finger)"
  by (simp add: map_of_map)

lemma all_down_is_zero: "dict_get2 (all_down chords) side finger = Inr v \<Longrightarrow> v = 0"
  by (auto simp: dict_get2_def dict_get_def map_of_all_down map_of_zero_row split: option.splits)

lemma all_down_covers:
  assumes "map_of chords side = Some fm" and "finger \<in> fst ` set fm"
  shows "dict_get2 (all_down chords) side finger = Inr 0"
proof -
  from assms(2) obtain c where "map_of fm finger = Some c"
    by (metis domD dom_map_of_conv_image_fst)
  with assms(1) show ?thesis
    by (simp add: dict_get2_def dict_get_def map_of_all_down map_of_zero_row)
qed

lemma cycle_scale_resets:
  assumes "cycle_scale s = Inr s'"
  shows "\<exists>chords. get_current_chords s' = Inr chords \<and> prev_states s' = all_down chords \<and>
           active_keys s' = [] \<and> active_notes s' = active_notes s \<and> midi_out s' = midi_out s \<and>
           background s' = background s \<and> scales s' = scales s"
  using assms
  by (auto simp: cycle_scale_def get_current_chords_def Let_def split: sum.splits)

lemma cycle_D: "current_scale s = ''D_Major'' \<Longrightarrow> scales s = initial_scales \<Longrightarrow>
   cycle_scale s = Inr (s\<lparr>current_scale := ''C_Major'', prev_states := all_down C_Major, active_keys := []\<rparr>)"
  by (simp add: cycle_scale_def initial_scales_def dict_get_def Let_def)

lemma cycle_C: "current_scale s = ''C_Major'' \<Longrightarrow> scales s = initial_scales \<Longrightarrow>
   cycle_scale s = Inr (s\<lparr>current_scale := ''Pentatonic'', prev_states := all_down Pentatonic, active_keys := []\<rparr>)"
  by (simp add: cycle_scale_def initial_scales_def dict_get_def Let_def)

lemma cycle_P: "current_scale s = ''Pentatonic'' \<Longrightarrow> scales s = initial_scales \<Longrightarrow>
   cycle_scale s = Inr (s\<lparr>current_scale := ''D_Major'', prev_states := all_down D_Major, active_keys := []\<rparr>)"
  by (simp add: cycle_scale_def initial_scales_def dict_get_def Let_def)

text \<open>
  C8. From the scale D_Major of the built-in table, \<^verbatim>\<open>cycle_scale\<close> goes to C_Major, then
  to Pentatonic, then back to D_Major: the third call returns the piano it started from,
  scale table included, with the previous finger states all down and no active key.
  After every call of \<^verbatim>\<open>cycle_scale\<close> the previous finger states are those of the new
  scale, 0 for each of its (side, finger) pairs and nowhere anything else, and the set
  of active keys is empty.
\<close>

theorem cycle_scale_round_trip:
  "(current_scale s = ''D_Major'' \<and> scales s = initial_scales \<longrightarrow>
      (\<exists>s1 s2. cycle_scale s = Inr s1 \<and> current_scale s1 = ''C_Major'' \<and>
               cycle_scale s1 = Inr s2 \<and> current_scale s2 = ''Pentatonic'' \<and>
               cycle_scale s2 = Inr (s\<lparr>prev_states := all_down D_Major, active_keys := []\<rparr>))) \<and>
   (cycle_scale s = Inr s' \<longrightarrow>
      (\<exists>chords. get_current_chords s' = Inr chords \<and> prev_states s' = all_down chords \<and>
         (\<forall>side fm finger. map_of chords side = Some fm \<and> finger \<in> fst ` set fm \<longrightarrow>
            dict_get2 (prev_states s') side finger = Inr 0)) \<and>
      (\<forall>side finger v. dict_get2 (prev_states s') side finger = Inr v \<longrightarrow> v = 0) \<and>
      active_keys s' = [])"
proof -
  have trip: "\<exists>s1 s2. cycle_scale s = Inr s1 \<and> current_scale s1 = ''C_Major'' \<and>
               cycle_scale s1 = Inr s2 \<and> current_scale s2 = ''Pentatonic'' \<and>
               cycle_scale s2 = Inr (s\<lparr>prev_states := all_down D_Major, active_keys := []\<rparr>)"
    if d: "current_scale s = ''D_Major''" and t: "scales s = initial_scales"
  proof -
    let ?s1 = "s\<lparr>current_scale := ''C_Major'', prev_states := all_down C_Major, active_keys := []\<rparr>"
    let ?s2 = "?s1\<lparr>current_scale := ''Pentatonic'', prev_states := all_down Pentatonic, active_keys := []\<rparr>"
    have 1: "cycle_scale s = Inr ?s1" by (rule cycle_D [OF d t])
    have 2: "cycle_scale ?s1 = Inr ?s2" by (rule cycle_C) (simp_all add: t)
    have "cycle_scale ?s2 =
            Inr (?s2\<lparr>current_scale := ''D_Major'', prev_states := all_down D_Major, active_keys := []\<rparr>)"
      by (rule cycle_P) (simp_all add: t)
    moreover have "?s2\<lparr>current_scale := ''D_Major'', prev_states := all_down D_Major, active_keys := []\<rparr>
           = s\<lparr>prev_states := all_down D_Major, active_keys := []\<rparr>"
      using d by simp
    ultimately have 3: "cycle_scale ?s2 = Inr (s\<lparr>prev_states := all_down D_Major, active_keys := []\<rparr>)"
      by simp
    from 1 2 3 show ?thesis by auto
  qed
  have reset: "(\<exists>chords. get_current_chords s' = Inr chords \<and> prev_states s' = all_down chords \<and>
         (\<forall>side fm finger. map_of chords side = Some fm \<and> finger \<in> fst ` set fm \<longrightarrow>
            dict_get2 (prev_states s') side finger = Inr 0)) \<and>
      (\<forall>side finger v. dict_get2 (prev_states s') side finger = Inr v \<longrightarrow> v = 0) \<and>
      active_keys s' = []"
    if c: "cycle_scale s = Inr s'"
  proof -
    from cycle_scale_resets [OF c] obtain chords where
      ch: "get_current_chords s' = Inr chords" and pv: "prev_states s' = all_down chords"
      and ak: "active_keys s' = []" by blast
    from ch pv ak show ?thesis
      by (auto simp: all_down_covers dest: all_down_is_zero)
  qed
  from trip reset show ?thesis by blast
qed

theorem cycle_scale_round_trip_witness:
  "current_scale initial_piano = ''D_Major'' \<and> scales initial_piano = initial_scales \<and>
   steps [(Key 115, 1), (Key 115, 2), (Key 115, 3)] initial_piano = Inr initial_piano \<and>
   cycle_scale initial_piano =
     Inr (initial_piano\<lparr>current_scale := ''C_Major'', prev_states := all_down C_Major\<rparr>) \<and>
   dict_get2 (all_down C_Major) ''left'' ''ring'' = Inr 0"
proof -
  have d: "current_scale initial_piano = ''D_Major'' \<and> scales initial_piano = initial_scales"
    by (simp add: initial_piano_def)
  have r: "initial_piano\<lparr>prev_states := all_down D_Major, active_keys := []\<rparr> = initial_piano"
    by (simp add: initial_piano_def)
  from cycle_scale_round_trip [of initial_piano initial_piano, THEN conjunct1, rule_format, OF d]
  obtain s1 s2 where
    "cycle_scale initial_piano = Inr s1" "cycle_scale s1 = Inr s2" "cycle_scale s2 = Inr initial_piano"
    unfolding r by blast
  then have "steps [(Key 115, 1), (Key 115, 2), (Key 115, 3)] initial_piano = Inr initial_piano"
    by (simp add: handle_keyboard_input_def)
  moreover have c: "cycle_scale initial_piano =
     Inr (initial_piano\<lparr>current_scale := ''C_Major'', prev_states := all_down C_Major\<rparr>)"
    using cycle_D [of initial_piano] d by (simp add: initial_piano_def)
  moreover have "dict_get2 (all_down C_Major) ''left'' ''ring'' = Inr 0"
  proof -
    let ?s' = "initial_piano\<lparr>current_scale := ''C_Major'', prev_states := all_down C_Major\<rparr>"
    from cycle_scale_round_trip [of initial_piano ?s', THEN conjunct2, rule_format, OF c]
    obtain chords where g: "get_current_chords ?s' = Inr chords"
      and a: "\<forall>side fm finger. map_of chords side = Some fm \<and> finger \<in> fst ` set fm \<longrightarrow>
            dict_get2 (prev_states ?s') side finger = Inr 0"
      by blast
    from g have "chords = C_Major"
      by (simp add: get_current_chords_def initial_piano_def initial_scales_def dict_get_def)
    with a have "\<forall>side fm finger. map_of C_Major side = Some fm \<and> finger \<in> fst ` set fm \<longrightarrow>
            dict_get2 (all_down C_Major) side finger = Inr 0"
      by simp
    then have "map_of C_Major ''left'' = Some (the (map_of C_Major ''left'')) \<and>
               ''ring'' \<in> fst ` set (the (map_of C_Major ''left'')) \<longrightarrow>
               dict_get2 (all_down C_Major) ''left'' ''ring'' = Inr 0"
      by blast
    then show ?thesis by (simp add: C_Major_def)
  qed
  ultimately show ?thesis using d by blast
qed

lemma not_pinching_fist: "\<not> is_pinching left_fist s"
  by (simp add: is_pinching_def left_fist_def Let_def)

lemma thumb_fingers_C:
  assumes "prev_states s = all_down C_Major" and "velocity_multiplier s = 1"
    and "play_chord_enhanced [60, 64, 67] 20 now s = Inr s1"
    and "prev_states s1 = all_down C_Major"
  shows "finger_loop 0 finger_names left_thumb_up ''left'' C_Major now (s, all_down C_Major, []) =
     Inr (s1,
          [(''left'', [(''thumb'', 1), (''index'', 0), (''middle'', 0), (''ring'', 0), (''pinky'', 0)]),
           (''right'', [(''thumb'', 0), (''index'', 0), (''middle'', 0), (''ring'', 0), (''pinky'', 0)])],
          [''left_thumb''])"
  by (simp add: finger_names_def finger_step_def finger_edge_def C_Major_def all_down_def dict_get_def
      dict_get2_def assms [unfolded all_down_def C_Major_def, simplified] velocity_thumb
      set_add_def Let_def left_thumb_up_def [THEN arg_cong [where f = fingersUp]])

lemma fist_fingers_C:
  assumes "prev_states s =
     [(''left'', [(''thumb'', 1), (''index'', 0), (''middle'', 0), (''ring'', 0), (''pinky'', 0)]),
      (''right'', [(''thumb'', 0), (''index'', 0), (''middle'', 0), (''ring'', 0), (''pinky'', 0)])]"
  shows "finger_loop 0 finger_names left_fist ''left'' C_Major now (s, all_down C_Major, []) =
     Inr (stop_chord_enhanced [60, 64, 67] s,
          [(''left'', [(''thumb'', 0), (''index'', 0), (''middle'', 0), (''ring'', 0), (''pinky'', 0)]),
           (''right'', [(''thumb'', 0), (''index'', 0), (''middle'', 0), (''ring'', 0), (''pinky'', 0)])],
          [])"
proof -
  have p: "prev_states (stop_chord_enhanced [60, 64, 67] s) = prev_states s"
    by (simp add: stop_chord_enhanced_def)
  show ?thesis
    by (simp add: finger_names_def finger_step_def finger_edge_def C_Major_def all_down_def dict_get_def
        dict_get2_def assms p Let_def left_fist_def [THEN arg_cong [where f = fingersUp]])
qed

lemma stuck_run_2:
  "steps [(Frame 1280 [left_thumb_up], 0), (Key 115, 1)] initial_piano =
     Inr (initial_piano\<lparr>current_scale := ''C_Major'', active_notes := [62, 66, 69],
            prev_states := all_down C_Major,
            midi_out := [NoteOn 62 20, NoteOn 66 20, NoteOn 69 20]\<rparr>)"
proof -
  let ?p = "initial_piano\<lparr>active_notes := [62, 66, 69], active_keys := [''left_thumb''],
            prev_states := [(''left'', [(''thumb'', 1), (''index'', 0), (''middle'', 0), (''ring'', 0), (''pinky'', 0)]),
                            (''right'', [(''thumb'', 0), (''index'', 0), (''middle'', 0), (''ring'', 0), (''pinky'', 0)])],
            midi_out := [NoteOn 62 20, NoteOn 66 20, NoteOn 69 20]\<rparr>"
  have "cycle_scale ?p = Inr (?p\<lparr>current_scale := ''C_Major'', prev_states := all_down C_Major, active_keys := []\<rparr>)"
    by (rule cycle_D) (simp_all add: initial_piano_def)
  also have "?p\<lparr>current_scale := ''C_Major'', prev_states := all_down C_Major, active_keys := []\<rparr> =
     initial_piano\<lparr>current_scale := ''C_Major'', active_notes := [62, 66, 69],
            prev_states := all_down C_Major,
            midi_out := [NoteOn 62 20, NoteOn 66 20, NoteOn 69 20]\<rparr>"
    by (simp add: initial_piano_def)
  finally show ?thesis
    by (simp add: thumb_frame handle_keyboard_input_def)
qed

lemma stuck_frame_3:
  "run_frame 1280 [left_thumb_up] 2
     (initial_piano\<lparr>current_scale := ''C_Major'', active_notes := [62, 66, 69],
            prev_states := all_down C_Major,
            midi_out := [NoteOn 62 20, NoteOn 66 20, NoteOn 69 20]\<rparr>) =
   Inr (initial_piano\<lparr>current_scale := ''C_Major'', active_notes := [62, 66, 69, 60, 64, 67],
          active_keys := [''left_thumb''],
          prev_states := [(''left'', [(''thumb'', 1), (''index'', 0), (''middle'', 0), (''ring'', 0), (''pinky'', 0)]),
                          (''right'', [(''thumb'', 0), (''index'', 0), (''middle'', 0), (''ring'', 0), (''pinky'', 0)])],
          midi_out := [NoteOn 62 20, NoteOn 66 20, NoteOn 69 20, NoteOn 60 20, NoteOn 64 20, NoteOn 67 20]\<rparr>)"
proof -
  let ?s = "initial_piano\<lparr>current_scale := ''C_Major'', active_notes := [62, 66, 69],
            prev_states := all_down C_Major,
            midi_out := [NoteOn 62 20, NoteOn 66 20, NoteOn 69 20]\<rparr>"
  let ?s1 = "initial_piano\<lparr>current_scale := ''C_Major'', active_notes := [62, 66, 69, 60, 64, 67],
            prev_states := all_down C_Major,
            midi_out := [NoteOn 62 20, NoteOn 66 20, NoteOn 69 20, NoteOn 60 20, NoteOn 64 20, NoteOn 67 20]\<rparr>"
  have pl: "play_chord_enhanced [60, 64, 67] 20 2 ?s = Inr ?s1"
    by (simp add: play_chord_enhanced_def initial_piano_def play_single_note_def set_add_def Let_def)
  have f: "prev_states ?s = all_down C_Major" "velocity_multiplier ?s = 1"
    "prev_states ?s1 = all_down C_Major" "\<not> pinch_chord_playing ?s1"
    by (simp_all add: initial_piano_def)
  have hp: "handle_pinch_gesture left_thumb_up 2 ?s = Inr (False, ?s)"
    by (simp add: handle_pinch_gesture_def not_pinching_thumb)
  have ch: "get_current_chords ?s = Inr C_Major"
    by (simp add: get_current_chords_def initial_piano_def initial_scales_def dict_get_def)
  have "run_frame 1280 [left_thumb_up] 2 ?s =
     Inr (?s1\<lparr>active_keys := [''left_thumb''],
            prev_states := [(''left'', [(''thumb'', 1), (''index'', 0), (''middle'', 0), (''ring'', 0), (''pinky'', 0)]),
                            (''right'', [(''thumb'', 0), (''index'', 0), (''middle'', 0), (''ring'', 0), (''pinky'', 0)])],
            screen_width := 1280\<rparr>)"
    by (simp add: run_frame_def process_hands_def ch hp thumb_fingers_C [OF f(1,2) pl f(3)] f(4) Let_def
        left_thumb_up_def [THEN arg_cong [where f = hand_type]])
  then show ?thesis by (simp add: initial_piano_def)
qed

lemma stuck_frame_4:
  "run_frame 1280 [left_fist] 3
     (initial_piano\<lparr>current_scale := ''C_Major'', active_notes := [62, 66, 69, 60, 64, 67],
          active_keys := [''left_thumb''],
          prev_states := [(''left'', [(''thumb'', 1), (''index'', 0), (''middle'', 0), (''ring'', 0), (''pinky'', 0)]),
                          (''right'', [(''thumb'', 0), (''index'', 0), (''middle'', 0), (''ring'', 0), (''pinky'', 0)])],
          midi_out := [NoteOn 62 20, NoteOn 66 20, NoteOn 69 20, NoteOn 60 20, NoteOn 64 20, NoteOn 67 20]\<rparr>) =
   Inr (initial_piano\<lparr>current_scale := ''C_Major'', active_notes := [62, 66, 69, 60, 64, 67],
          prev_states := all_down C_Major,
          midi_out := [NoteOn 62 20, NoteOn 66 20, NoteOn 69 20, NoteOn 60 20, NoteOn 64 20, NoteOn 67 20],
          background := [SustainThread [60, 64, 67]]\<rparr>)"
proof -
  let ?s = "initial_piano\<lparr>current_scale := ''C_Major'', active_notes := [62, 66, 69, 60, 64, 67],
          active_keys := [''left_thumb''],
          prev_states := [(''left'', [(''thumb'', 1), (''index'', 0), (''middle'', 0), (''ring'', 0), (''pinky'', 0)]),
                          (''right'', [(''thumb'', 0), (''index'', 0), (''middle'', 0), (''ring'', 0), (''pinky'', 0)])],
          midi_out := [NoteOn 62 20, NoteOn 66 20, NoteOn 69 20, NoteOn 60 20, NoteOn 64 20, NoteOn 67 20]\<rparr>"
  have p: "prev_states ?s =
     [(''left'', [(''thumb'', 1), (''index'', 0), (''middle'', 0), (''ring'', 0), (''pinky'', 0)]),
      (''right'', [(''thumb'', 0), (''index'', 0), (''middle'', 0), (''ring'', 0), (''pinky'', 0)])]"
    by simp
  have hp: "handle_pinch_gesture left_fist 3 ?s = Inr (False, ?s)"
    by (simp add: handle_pinch_gesture_def not_pinching_fist)
  have ch: "get_current_chords ?s = Inr C_Major"
    by (simp add: get_current_chords_def initial_piano_def initial_scales_def dict_get_def)
  have npp: "\<not> pinch_chord_playing (stop_chord_enhanced [60, 64, 67] ?s)"
    by (simp add: stop_chord_enhanced_def initial_piano_def)
  have "run_frame 1280 [left_fist] 3 ?s =
     Inr ((stop_chord_enhanced [60, 64, 67] ?s)\<lparr>active_keys := [],
            prev_states := [(''left'', [(''thumb'', 0), (''index'', 0), (''middle'', 0), (''ring'', 0), (''pinky'', 0)]),
                            (''right'', [(''thumb'', 0), (''index'', 0), (''middle'', 0), (''ring'', 0), (''pinky'', 0)])],
            screen_width := 1280\<rparr>)"
    using npp
    by (simp add: run_frame_def process_hands_def ch hp fist_fingers_C [OF p] Let_def
        left_fist_def [THEN arg_cong [where f = hand_type]])
  then show ?thesis
    by (simp add: stop_chord_enhanced_def initial_piano_def all_down_def C_Major_def)
qed

lemma stuck_fire_5:
  "step (Fire 0) 4
     (initial_piano\<lparr>current_scale := ''C_Major'', active_notes := [62, 66, 69, 60, 64, 67],
          prev_states := all_down C_Major,
          midi_out := [NoteOn 62 20, NoteOn 66 20, NoteOn 69 20, NoteOn 60 20, NoteOn 64 20, NoteOn 67 20],
          background := [SustainThread [60, 64, 67]]\<rparr>) =
   Inr (initial_piano\<lparr>current_scale := ''C_Major'', active_notes := [62, 66, 69],
          prev_states := all_down C_Major,
          midi_out := [NoteOn 62 20, NoteOn 66 20, NoteOn 69 20, NoteOn 60 20, NoteOn 64 20, NoteOn 67 20,
                       NoteOff 60 127, NoteOff 64 127, NoteOff 67 127]\<rparr>)"
  by (simp add: initial_piano_def player_note_off_def set_discard_def Let_def)

lemma steps_append:
  "steps (xs @ ys) s = (case steps xs s of Inl e \<Rightarrow> Inl e | Inr s1 \<Rightarrow> steps ys s1)"
  by (induction xs arbitrary: s) (auto split: sum.splits)

text \<open>
  C4. The code does not do what the claim says. With the left thumb raised in D_Major the
  notes 62, 66 and 69 are active; the key \<^verbatim>\<open>'s'\<close> (115) changes the scale and sends
  nothing, so the three notes stay active. The thumb, still up, then counts as a new press
  and plays the C_Major chord 60, 64, 67; lowering it releases that chord only. Once the
  release has run no background work is left, and 62, 66 and 69 are still active with no
  note-off ever sent for them.
\<close>

theorem cycle_scale_leaves_notes_stuck:
  "steps [(Frame 1280 [left_thumb_up], 0), (Key 115, 1)] initial_piano =
     Inr (initial_piano\<lparr>current_scale := ''C_Major'', active_notes := [62, 66, 69],
            prev_states := all_down C_Major,
            midi_out := [NoteOn 62 20, NoteOn 66 20, NoteOn 69 20]\<rparr>) \<and>
   steps [(Frame 1280 [left_thumb_up], 0), (Key 115, 1), (Frame 1280 [left_thumb_up], 2),
          (Frame 1280 [left_fist], 3), (Fire 0, 4)] initial_piano =
     Inr (initial_piano\<lparr>current_scale := ''C_Major'', active_notes := [62, 66, 69],
          prev_states := all_down C_Major,
          midi_out := [NoteOn 62 20, NoteOn 66 20, NoteOn 69 20, NoteOn 60 20, NoteOn 64 20, NoteOn 67 20,
                       NoteOff 60 127, NoteOff 64 127, NoteOff 67 127]\<rparr>)"
proof -
  have "steps ([(Frame 1280 [left_thumb_up], 0), (Key 115, 1)] @
               [(Frame 1280 [left_thumb_up], 2), (Frame 1280 [left_fist], 3), (Fire 0, 4)]) initial_piano =
     Inr (initial_piano\<lparr>current_scale := ''C_Major'', active_notes := [62, 66, 69],
          prev_states := all_down C_Major,
          midi_out := [NoteOn 62 20, NoteOn 66 20, NoteOn 69 20, NoteOn 60 20, NoteOn 64 20, NoteOn 67 20,
                       NoteOff 60 127, NoteOff 64 127, NoteOff 67 127]\<rparr>)"
    unfolding steps_append stuck_run_2
    by (simp add: stuck_frame_3 stuck_frame_4 stuck_fire_5 del: step.simps(3))
  with stuck_run_2 show ?thesis by simp
qed

section \<open>The delayed release\<close>

lemma stop_after_delay_absent:
  "set chord_notes \<inter> set (active_notes s) = {} \<Longrightarrow> stop_after_delay chord_notes now s = Inr s"
  by (induction chord_notes) auto

lemma set_discard_set: "set (set_discard x xs) = set xs - {x}"
  by (auto simp: set_discard_def)

lemma stop_after_delay_active:
  "stop_after_delay chord_notes now s = Inr s' \<Longrightarrow>
     set (active_notes s') = set (active_notes s) - set chord_notes"
proof (induction chord_notes arbitrary: s)
  case Nil
  then show ?case by simp
next
  case (Cons n ns)
  show ?case
  proof (cases "n \<in> set (active_notes s)")
    case False
    with Cons.prems have "stop_after_delay ns now s = Inr s'" by simp
    from Cons.IH [OF this] False show ?thesis by auto
  next
    case True
    let ?s2 = "(player_note_off n 127 s)\<lparr>active_notes := set_discard n (active_notes (player_note_off n 127 s))\<rparr>"
    have a2: "set (active_notes ?s2) = set (active_notes s) - {n}"
      by (simp add: player_note_off_def set_discard_set)
    show ?thesis
    proof (cases "recording ?s2")
      case rec: True
      with Cons.prems True obtain s3 where
        r: "record_event n 0 ''off'' now ?s2 = Inr s3" and l: "stop_after_delay ns now s3 = Inr s'"
        by (auto simp: Let_def split: sum.splits)
      from r have "active_notes s3 = active_notes ?s2"
        by (auto simp: record_event_def split: option.splits)
      with Cons.IH [OF l] a2 show ?thesis by auto
    next
      case False
      with Cons.prems True have "stop_after_delay ns now ?s2 = Inr s'" by (simp add: Let_def)
      from Cons.IH [OF this] a2 show ?thesis by auto
    qed
  qed
qed

text \<open>
  C9. The release that runs when the sustain time is over, on a piano in which none of
  the chord's notes is active, returns the piano as it was: nothing is sent, nothing is
  recorded, nothing is raised. After any release of a chord that went through, a second
  release of the same chord changes nothing, so releasing twice is releasing once.
\<close>

theorem release_when_off_is_noop:
  "(set chord_notes \<inter> set (active_notes s) = {} \<longrightarrow> stop_after_delay chord_notes now s = Inr s) \<and>
   (stop_after_delay chord_notes now s = Inr s' \<longrightarrow> stop_after_delay chord_notes now' s' = Inr s')"
proof -
  have "stop_after_delay chord_notes now' s' = Inr s'" if "stop_after_delay chord_notes now s = Inr s'"
  proof -
    from stop_after_delay_active [OF that] have "set chord_notes \<inter> set (active_notes s') = {}"
      by auto
    then show ?thesis by (rule stop_after_delay_absent)
  qed
  then show ?thesis by (simp add: stop_after_delay_absent)
qed

lemma release_example:
  "stop_after_delay [62, 66, 69] 12 sounding_piano =
     Inr (sounding_piano\<lparr>active_notes := [74],
        midi_out := [NoteOn 62 90, NoteOn 66 90, NoteOn 69 90, NoteOn 74 90,
                     NoteOff 62 127, NoteOff 66 127, NoteOff 69 127],
        recorded_notes := [\<lparr>ev_note = 62, ev_velocity = 0, ev_time = 2, ev_action = ''off''\<rparr>,
                           \<lparr>ev_note = 66, ev_velocity = 0, ev_time = 2, ev_action = ''off''\<rparr>,
                           \<lparr>ev_note = 69, ev_velocity = 0, ev_time = 2, ev_action = ''off''\<rparr>]\<rparr>)"
  by (simp add: sounding_piano_def initial_piano_def player_note_off_def set_discard_def
      record_event_def Let_def)

theorem release_when_off_is_noop_witness:
  "set [60, 64, 67] \<inter> set (active_notes sounding_piano) = {} \<and>
   stop_after_delay [60, 64, 67] 12 sounding_piano = Inr sounding_piano \<and>
   stop_after_delay [62, 66, 69] 12 sounding_piano =
     Inr (sounding_piano\<lparr>active_notes := [74],
        midi_out := [NoteOn 62 90, NoteOn 66 90, NoteOn 69 90, NoteOn 74 90,
                     NoteOff 62 127, NoteOff 66 127, NoteOff 69 127],
        recorded_notes := [\<lparr>ev_note = 62, ev_velocity = 0, ev_time = 2, ev_action = ''off''\<rparr>,
                           \<lparr>ev_note = 66, ev_velocity = 0, ev_time = 2, ev_action = ''off''\<rparr>,
                           \<lparr>ev_note = 69, ev_velocity = 0, ev_time = 2, ev_action = ''off''\<rparr>]\<rparr>) \<and>
   stop_after_delay [62, 66, 69] 13
     (sounding_piano\<lparr>active_notes := [74],
        midi_out := [NoteOn 62 90, NoteOn 66 90, NoteOn 69 90, NoteOn 74 90,
                     NoteOff 62 127, NoteOff 66 127, NoteOff 69 127],
        recorded_notes := [\<lparr>ev_note = 62, ev_velocity = 0, ev_time = 2, ev_action = ''off''\<rparr>,
                           \<lparr>ev_note = 66, ev_velocity = 0, ev_time = 2, ev_action = ''off''\<rparr>,
                           \<lparr>ev_note = 69, ev_velocity = 0, ev_time = 2, ev_action = ''off''\<rparr>]\<rparr>) =
     Inr (sounding_piano\<lparr>active_notes := [74],
        midi_out := [NoteOn 62 90, NoteOn 66 90, NoteOn 69 90, NoteOn 74 90,
                     NoteOff 62 127, NoteOff 66 127, NoteOff 69 127],
        recorded_notes := [\<lparr>ev_note = 62, ev_velocity = 0, ev_time = 2, ev_action = ''off''\<rparr>,
                           \<lparr>ev_note = 66, ev_velocity = 0, ev_time = 2, ev_action = ''off''\<rparr>,
                           \<lparr>ev_note = 69, ev_velocity = 0, ev_time = 2, ev_action = ''off''\<rparr>]\<rparr>)"
proof -
  have d: "set [60, 64, 67] \<inter> set (active_notes sounding_piano) = {}"
    by (simp add: sounding_piano_def)
  from release_when_off_is_noop [of "[60, 64, 67]" sounding_piano 12, THEN conjunct1, rule_format, OF d]
  have a: "stop_after_delay [60, 64, 67] 12 sounding_piano = Inr sounding_piano" .
  note b = release_when_off_is_noop [of "[62, 66, 69]" sounding_piano 12 _ 13,
      THEN conjunct2, rule_format, OF release_example]
  from d a release_example b show ?thesis by blast
qed

section \<open>A frame without hands\<close>

lemma stop_all_effect:
  "active_notes (stop_all ns s) = filter (\<lambda>n. n \<notin> set ns) (active_notes s) \<and>
   midi_out (stop_all ns s) = midi_out s @ (if player s then map (\<lambda>n. NoteOff n 127) ns else []) \<and>
   stop_all ns s = s\<lparr>active_notes := active_notes (stop_all ns s), midi_out := midi_out (stop_all ns s)\<rparr>"
proof (induction ns arbitrary: s)
  case Nil
  show ?case by simp
next
  case (Cons n ns)
  let ?s1 = "(player_note_off n 127 s)\<lparr>active_notes := set_discard n (active_notes (player_note_off n 127 s))\<rparr>"
  have s1: "active_notes ?s1 = filter (\<lambda>y. y \<noteq> n) (active_notes s)"
    "midi_out ?s1 = midi_out s @ (if player s then [NoteOff n 127] else [])"
    "player ?s1 = player s"
    "?s1 = s\<lparr>active_notes := active_notes ?s1, midi_out := midi_out ?s1\<rparr>"
    by (simp_all add: player_note_off_def set_discard_def)
  have st: "stop_all (n # ns) s = stop_all ns ?s1" by (simp add: Let_def)
  have a: "active_notes (stop_all (n # ns) s) = filter (\<lambda>m. m \<notin> set (n # ns)) (active_notes s)"
    unfolding st using Cons.IH [of ?s1] s1(1) by (auto intro: filter_cong)
  have m: "midi_out (stop_all (n # ns) s) =
      midi_out s @ (if player s then map (\<lambda>n. NoteOff n 127) (n # ns) else [])"
    unfolding st using Cons.IH [of ?s1] s1(2,3) by simp
  have r: "stop_all (n # ns) s =
      s\<lparr>active_notes := active_notes (stop_all (n # ns) s), midi_out := midi_out (stop_all (n # ns) s)\<rparr>"
  proof -
    from Cons.IH [of ?s1] have "stop_all ns ?s1 =
        ?s1\<lparr>active_notes := active_notes (stop_all ns ?s1), midi_out := midi_out (stop_all ns ?s1)\<rparr>"
      by blast
    also have "\<dots> = s\<lparr>active_notes := active_notes (stop_all ns ?s1), midi_out := midi_out (stop_all ns ?s1)\<rparr>"
      by (subst s1(4)) simp
    finally show ?thesis unfolding st .
  qed
  from a m r show ?case by blast
qed

lemma send_pitch_bend_center:
  "send_pitch_bend 8192 s = (if player s then s\<lparr>midi_out := midi_out s @ [WriteShort 224 0 64]\<rparr> else s)"
  by (simp add: send_pitch_bend_def Let_def)

text \<open>
  C2. In any state whose current scale is in the scale table, a frame without hands goes
  through and leaves the previous finger states all down (0 for every side and finger of
  the scale), no active key, no active note and the pinch flag off. With a player, what
  it sends is exactly one note-off for each note that was active, at once, followed by the
  pitch bend 8192 (LSB 0, MSB 64) when the pinch chord was playing. Pending background
  work, the sustain threads included, is left as it is.
\<close>

theorem no_hands_panic_stop:
  assumes "get_current_chords s = Inr chords"
  shows "\<exists>s'. run_frame w [] now s = Inr s' \<and>
     prev_states s' = all_down chords \<and>
     (\<forall>side finger v. dict_get2 (prev_states s') side finger = Inr v \<longrightarrow> v = 0) \<and>
     (\<forall>side fm finger. map_of chords side = Some fm \<and> finger \<in> fst ` set fm \<longrightarrow>
        dict_get2 (prev_states s') side finger = Inr 0) \<and>
     active_keys s' = [] \<and> active_notes s' = [] \<and> \<not> pinch_chord_playing s' \<and>
     background s' = background s \<and> midi_out s' = midi_out s @ sent s s' \<and>
     (player s \<longrightarrow> sent s s' = map (\<lambda>n. NoteOff n 127) (active_notes s) @
                               (if pinch_chord_playing s then [WriteShort 224 0 64] else []))"
proof -
  let ?s2 = "s\<lparr>prev_states := all_down chords, active_keys := []\<rparr>"
  let ?s3 = "stop_all (active_notes ?s2) ?s2"
  let ?s' = "(if pinch_chord_playing ?s3 then send_pitch_bend 8192 (?s3\<lparr>pinch_chord_playing := False\<rparr>) else ?s3)
              \<lparr>screen_width := w\<rparr>"
  have run: "run_frame w [] now s = Inr ?s'"
    by (simp add: run_frame_def no_hands_def assms Let_def)
  note e = stop_all_effect [of "active_notes ?s2" ?s2]
  have a3: "active_notes ?s3 = []" using e by simp
  have m3: "midi_out ?s3 = midi_out s @ (if player s then map (\<lambda>n. NoteOff n 127) (active_notes s) else [])"
    using e by simp
  have r3: "?s3 = ?s2\<lparr>active_notes := [], midi_out := midi_out ?s3\<rparr>"
    using e a3 by metis
  have f3: "prev_states ?s3 = all_down chords" "active_keys ?s3 = []" "background ?s3 = background s"
    "pinch_chord_playing ?s3 = pinch_chord_playing s" "player ?s3 = player s"
    by (subst r3, simp)+
  have p: "prev_states ?s' = all_down chords" "active_keys ?s' = []" "active_notes ?s' = []"
    "\<not> pinch_chord_playing ?s'" "background ?s' = background s"
    using f3 a3 by (simp_all add: send_pitch_bend_center)
  have m: "midi_out ?s' = midi_out s @ map (\<lambda>n. NoteOff n 127) (active_notes s) @
                               (if pinch_chord_playing s then [WriteShort 224 0 64] else [])"
    if "player s"
    using that f3 m3 by (simp add: send_pitch_bend_center)
  have m0: "midi_out ?s' = midi_out s" if "\<not> player s"
    using that f3 m3 by (simp add: send_pitch_bend_center)
  have app: "midi_out ?s' = midi_out s @ sent s ?s'"
  proof (cases "player s")
    case True
    show ?thesis unfolding sent_def m [OF True] by simp
  next
    case False
    show ?thesis unfolding sent_def m0 [OF False] by simp
  qed
  have snt: "sent s ?s' = map (\<lambda>n. NoteOff n 127) (active_notes s) @
                               (if pinch_chord_playing s then [WriteShort 224 0 64] else [])"
    if "player s"
    unfolding sent_def m [OF that] by simp
  from p(1) have z: "\<forall>side finger v. dict_get2 (prev_states ?s') side finger = Inr v \<longrightarrow> v = 0"
    by (auto simp only: dest: all_down_is_zero)
  from p(1) have c: "\<forall>side fm finger. map_of chords side = Some fm \<and> finger \<in> fst ` set fm \<longrightarrow>
        dict_get2 (prev_states ?s') side finger = Inr 0"
    by (auto simp only: intro: all_down_covers)
  from run p z c snt app show ?thesis by blast
qed

theorem no_hands_panic_stop_witness:
  "get_current_chords (sounding_piano\<lparr>pinch_chord_playing := True,
        background := [SustainThread [62, 66, 69]]\<rparr>) = Inr D_Major \<and>
   (\<exists>s'. run_frame 1280 [] 15 (sounding_piano\<lparr>pinch_chord_playing := True,
        background := [SustainThread [62, 66, 69]]\<rparr>) = Inr s' \<and>
      prev_states s' = all_down D_Major \<and> active_keys s' = [] \<and> active_notes s' = [] \<and>
      \<not> pinch_chord_playing s' \<and> background s' = [SustainThread [62, 66, 69]] \<and>
      midi_out s' = [NoteOn 62 90, NoteOn 66 90, NoteOn 69 90, NoteOn 74 90,
                     NoteOff 62 127, NoteOff 66 127, NoteOff 69 127, NoteOff 74 127,
                     WriteShort 224 0 64])"
proof -
  let ?s = "sounding_piano\<lparr>pinch_chord_playing := True, background := [SustainThread [62, 66, 69]]\<rparr>"
  have g: "get_current_chords ?s = Inr D_Major"
    by (simp add: get_current_chords_def sounding_piano_def initial_piano_def initial_scales_def
        dict_get_def)
  have f: "player ?s" "pinch_chord_playing ?s" "active_notes ?s = [62, 66, 69, 74]"
    "background ?s = [SustainThread [62, 66, 69]]"
    "midi_out ?s = [NoteOn 62 90, NoteOn 66 90, NoteOn 69 90, NoteOn 74 90]"
    by (simp_all add: sounding_piano_def initial_piano_def)
  from no_hands_panic_stop [OF g, of 1280 15] obtain s' where
    r: "run_frame 1280 [] 15 ?s = Inr s'" and
    p: "prev_states s' = all_down D_Major" "active_keys s' = []" "active_notes s' = []"
       "\<not> pinch_chord_playing s'" "background s' = background ?s" and
    ap: "midi_out s' = midi_out ?s @ sent ?s s'" and
    m: "player ?s \<longrightarrow> sent ?s s' = map (\<lambda>n. NoteOff n 127) (active_notes ?s) @
                               (if pinch_chord_playing ?s then [WriteShort 224 0 64] else [])"
    by blast
  from m f(1,2) have "sent ?s s' = map (\<lambda>n. NoteOff n 127) (active_notes ?s) @ [WriteShort 224 0 64]"
    by simp
  with ap have "midi_out s' = midi_out ?s @ map (\<lambda>n. NoteOff n 127) (active_notes ?s) @ [WriteShort 224 0 64]"
    by simp
  then have "midi_out s' = [NoteOn 62 90, NoteOn 66 90, NoteOn 69 90, NoteOn 74 90,
                     NoteOff 62 127, NoteOff 66 127, NoteOff 69 127, NoteOff 74 127,
                     WriteShort 224 0 64]"
    unfolding f(3,5) by simp
  with g r p f(4) show ?thesis by auto
qed

section \<open>The active notes follow the MIDI stream\<close>

lemma fresh_ons_append:
  "fresh_ons (a @ b) A = (fresh_ons a A \<and> fresh_ons b (fold apply_msg a A))"
  by (induction a arbitrary: A) auto

lemma set_set_add: "set (set_add x xs) = insert x (set xs)"
  by (auto simp: set_add_def)

lemma distinct_set_add: "distinct xs \<Longrightarrow> distinct (set_add x xs)"
  by (simp add: set_add_def)

lemma distinct_set_discard: "distinct xs \<Longrightarrow> distinct (set_discard x xs)"
  by (simp add: set_discard_def)

lemma follows_refl: "follows b s s"
  by (simp add: follows_def)

lemma follows_trans:
  assumes "follows b s s1" and "follows b s1 s2"
  shows "follows b s s2"
proof -
  from assms(1) obtain ms1 where
    p1: "player s1 = player s" and d1: "distinct (active_notes s) \<longrightarrow> distinct (active_notes s1)"
    and m1: "midi_out s1 = midi_out s @ ms1"
    and a1: "player s \<longrightarrow> set (active_notes s1) = fold apply_msg ms1 (set (active_notes s)) \<and>
           (b \<longrightarrow> fresh_ons ms1 (set (active_notes s)))"
    unfolding follows_def by blast
  from assms(2) obtain ms2 where
    p2: "player s2 = player s1" and d2: "distinct (active_notes s1) \<longrightarrow> distinct (active_notes s2)"
    and m2: "midi_out s2 = midi_out s1 @ ms2"
    and a2: "player s1 \<longrightarrow> set (active_notes s2) = fold apply_msg ms2 (set (active_notes s1)) \<and>
           (b \<longrightarrow> fresh_ons ms2 (set (active_notes s1)))"
    unfolding follows_def by blast
  have m: "midi_out s2 = midi_out s @ (ms1 @ ms2)" using m1 m2 by simp
  have a: "player s \<longrightarrow> set (active_notes s2) = fold apply_msg (ms1 @ ms2) (set (active_notes s)) \<and>
           (b \<longrightarrow> fresh_ons (ms1 @ ms2) (set (active_notes s)))"
    using a1 a2 p1 by (simp add: fresh_ons_append)
  from p1 p2 d1 d2 m a show ?thesis unfolding follows_def by auto
qed

lemma follows_weaken: "follows True s s' \<Longrightarrow> follows b s s'"
  unfolding follows_def by auto

lemma follows_same:
  "player s' = player s \<Longrightarrow> active_notes s' = active_notes s \<Longrightarrow> midi_out s' = midi_out s \<Longrightarrow>
   follows b s s'"
  by (simp add: follows_def)

lemma follows_note_on:
  assumes "b \<longrightarrow> n \<notin> set (active_notes s)"
  shows "follows b s ((play_single_note n v s)\<lparr>active_notes := set_add n (active_notes (play_single_note n v s))\<rparr>)"
proof (cases "player s")
  case True
  have "midi_out ((play_single_note n v s)\<lparr>active_notes := set_add n (active_notes (play_single_note n v s))\<rparr>)
        = midi_out s @ [NoteOn n v]"
    using True by (simp add: play_single_note_def)
  moreover have "set (set_add n (active_notes s)) = fold apply_msg [NoteOn n v] (set (active_notes s))"
    by (simp add: set_set_add apply_msg_def)
  moreover have "b \<longrightarrow> fresh_ons [NoteOn n v] (set (active_notes s))"
    using assms by (simp add: is_fresh_def)
  ultimately show ?thesis
    unfolding follows_def using True
    by (simp add: play_single_note_def distinct_set_add)
next
  case False
  then show ?thesis
    unfolding follows_def by (simp add: play_single_note_def distinct_set_add)
qed

lemma follows_note_off:
  "follows b s ((player_note_off n v s)\<lparr>active_notes := set_discard n (active_notes (player_note_off n v s))\<rparr>)"
proof (cases "player s")
  case True
  have "midi_out ((player_note_off n v s)\<lparr>active_notes := set_discard n (active_notes (player_note_off n v s))\<rparr>)
        = midi_out s @ [NoteOff n v]"
    using True by (simp add: player_note_off_def)
  moreover have "set (set_discard n (active_notes s)) = fold apply_msg [NoteOff n v] (set (active_notes s))"
    by (simp add: set_discard_set apply_msg_def)
  moreover have "fresh_ons [NoteOff n v] (set (active_notes s))"
    by (simp add: is_fresh_def)
  ultimately show ?thesis
    unfolding follows_def using True
    by (simp add: player_note_off_def distinct_set_discard)
next
  case False
  then show ?thesis
    unfolding follows_def by (simp add: player_note_off_def distinct_set_discard)
qed

lemma follows_record_event: "record_event n v a now s = Inr s' \<Longrightarrow> follows b s s'"
  by (rule follows_same) (auto dest: record_event_frame)

lemma follows_send_pitch_bend: "follows b s (send_pitch_bend v s)"
proof (cases "player s")
  case True
  then show ?thesis
    unfolding follows_def by (simp add: send_pitch_bend_def Let_def apply_msg_def is_fresh_def)
next
  case False
  then show ?thesis by (simp add: send_pitch_bend_def follows_refl)
qed

lemma follows_play_chord_loop:
  "play_chord_loop i ns v now s = Inr s' \<Longrightarrow> follows True s s'"
proof (induction ns arbitrary: i s)
  case Nil
  then show ?case by (simp add: follows_refl)
next
  case (Cons n ns)
  show ?case
  proof (cases "n \<in> set (active_notes s)")
    case True
    with Cons.prems have "play_chord_loop (Suc i) ns v now s = Inr s'" by simp
    then show ?thesis by (rule Cons.IH)
  next
    case False
    let ?s2 = "(play_single_note n v s)\<lparr>active_notes := set_add n (active_notes (play_single_note n v s))\<rparr>"
    let ?s3 = "if echo_enabled ?s2 \<and> i = 0
               then ?s2\<lparr>background := background ?s2 @ [EchoTimer n v 0.7, EchoTimer n v 0.4]\<rparr> else ?s2"
    have f2: "follows True s ?s2" using False by (intro follows_note_on) simp
    have f3: "follows True ?s2 ?s3" by (rule follows_same) simp_all
    have f23: "follows True s ?s3" by (rule follows_trans [OF f2 f3])
    show ?thesis
    proof (cases "recording ?s3")
      case True
      with Cons.prems False obtain s4 where
        r: "record_event n v ''on'' now ?s3 = Inr s4" and l: "play_chord_loop (Suc i) ns v now s4 = Inr s'"
        by (simp add: Let_def split: sum.splits)
      from follows_trans [OF f23 follows_record_event [OF r]] Cons.IH [OF l]
      show ?thesis by (rule follows_trans)
    next
      case rec: False
      with Cons.prems False have "play_chord_loop (Suc i) ns v now ?s3 = Inr s'"
        by (simp add: Let_def)
      from f23 Cons.IH [OF this] show ?thesis by (rule follows_trans)
    qed
  qed
qed

lemma follows_pinch_chord_loop:
  "pinch_chord_loop ns now s = Inr s' \<Longrightarrow> follows True s s'"
proof (induction ns arbitrary: s)
  case Nil
  then show ?case by (simp add: follows_refl)
next
  case (Cons n ns)
  show ?case
  proof (cases "n \<in> set (active_notes s)")
    case True
    with Cons.prems have "pinch_chord_loop ns now s = Inr s'" by simp
    then show ?thesis by (rule Cons.IH)
  next
    case False
    let ?s2 = "(play_single_note n 120 s)\<lparr>active_notes := set_add n (active_notes (play_single_note n 120 s))\<rparr>"
    have f2: "follows True s ?s2" using False by (intro follows_note_on) simp
    show ?thesis
    proof (cases "recording ?s2")
      case True
      with Cons.prems False obtain s3 where
        r: "record_event n 120 ''on'' now ?s2 = Inr s3" and l: "pinch_chord_loop ns now s3 = Inr s'"
        by (simp add: Let_def split: sum.splits)
      from follows_trans [OF f2 follows_record_event [OF r]] Cons.IH [OF l]
      show ?thesis by (rule follows_trans)
    next
      case rec: False
      with Cons.prems False have "pinch_chord_loop ns now ?s2 = Inr s'"
        by (simp add: Let_def)
      from f2 Cons.IH [OF this] show ?thesis by (rule follows_trans)
    qed
  qed
qed

lemma follows_stop_after_delay:
  "stop_after_delay ns now s = Inr s' \<Longrightarrow> follows True s s'"
proof (induction ns arbitrary: s)
  case Nil
  then show ?case by (simp add: follows_refl)
next
  case (Cons n ns)
  show ?case
  proof (cases "n \<in> set (active_notes s)")
    case False
    with Cons.prems have "stop_after_delay ns now s = Inr s'" by simp
    then show ?thesis by (rule Cons.IH)
  next
    case True
    let ?s2 = "(player_note_off n 127 s)\<lparr>active_notes := set_discard n (active_notes (player_note_off n 127 s))\<rparr>"
    have f2: "follows True s ?s2" by (rule follows_note_off)
    show ?thesis
    proof (cases "recording ?s2")
      case rec: True
      with Cons.prems True obtain s3 where
        r: "record_event n 0 ''off'' now ?s2 = Inr s3" and l: "stop_after_delay ns now s3 = Inr s'"
        by (simp add: Let_def split: sum.splits)
      from follows_trans [OF f2 follows_record_event [OF r]] Cons.IH [OF l]
      show ?thesis by (rule follows_trans)
    next
      case False
      with Cons.prems True have "stop_after_delay ns now ?s2 = Inr s'"
        by (simp add: Let_def)
      from f2 Cons.IH [OF this] show ?thesis by (rule follows_trans)
    qed
  qed
qed

lemma follows_stop_all: "follows True s (stop_all ns s)"
proof (induction ns arbitrary: s)
  case Nil
  show ?case by (simp add: follows_refl)
next
  case (Cons n ns)
  let ?s1 = "(player_note_off n 127 s)\<lparr>active_notes := set_discard n (active_notes (player_note_off n 127 s))\<rparr>"
  have "follows True s ?s1" by (rule follows_note_off)
  from this Cons.IH [of ?s1] have "follows True s (stop_all ns ?s1)" by (rule follows_trans)
  then show ?case by (simp add: Let_def)
qed

lemma follows_pinch_stop_loop: "follows True s (pinch_stop_loop ns s)"
proof (induction ns arbitrary: s)
  case Nil
  show ?case by (simp add: follows_refl)
next
  case (Cons n ns)
  show ?case
  proof (cases "n \<in> set (active_notes s)")
    case False
    with Cons.IH [of s] show ?thesis by simp
  next
    case True
    let ?s1 = "(player_note_off n 127 s)\<lparr>active_notes := set_discard n (active_notes (player_note_off n 127 s))\<rparr>"
    have "follows True s ?s1" by (rule follows_note_off)
    from this Cons.IH [of ?s1] have "follows True s (pinch_stop_loop ns ?s1)" by (rule follows_trans)
    with True show ?thesis by (simp add: Let_def)
  qed
qed

lemma follows_playback_events: "follows False s (playback_events evs s)"
proof (induction evs arbitrary: s)
  case Nil
  show ?case by (simp add: follows_refl)
next
  case (Cons e evs)
  show ?case
  proof (cases "ev_action e = ''on''")
    case True
    let ?s1 = "(play_single_note (ev_note e) (ev_velocity e) s)
                 \<lparr>active_notes := set_add (ev_note e) (active_notes (play_single_note (ev_note e) (ev_velocity e) s))\<rparr>"
    have "follows False s ?s1" by (rule follows_note_on) simp
    from this Cons.IH [of ?s1] have "follows False s (playback_events evs ?s1)" by (rule follows_trans)
    with True show ?thesis by (simp add: Let_def)
  next
    case False
    let ?s1 = "(player_note_off (ev_note e) (ev_velocity e) s)
                 \<lparr>active_notes := set_discard (ev_note e) (active_notes (player_note_off (ev_note e) (ev_velocity e) s))\<rparr>"
    have "follows False s ?s1" by (rule follows_note_off)
    from this Cons.IH [of ?s1] have "follows False s (playback_events evs ?s1)" by (rule follows_trans)
    with False show ?thesis by (simp add: Let_def)
  qed
qed

lemma follows_playback_thread_func: "follows False s (playback_thread_func s)"
proof -
  let ?s1 = "stop_all (active_notes s) s"
  let ?s2 = "?s1\<lparr>active_keys := []\<rparr>"
  let ?s3 = "playback_events (recorded_notes ?s2) ?s2"
  have 1: "follows False s ?s1" by (rule follows_weaken [OF follows_stop_all])
  have 2: "follows False ?s1 ?s2" by (rule follows_same) simp_all
  have 3: "follows False ?s2 ?s3" by (rule follows_playback_events)
  have 4: "follows False ?s3 (stop_all (active_notes ?s3) ?s3)" by (rule follows_weaken [OF follows_stop_all])
  from follows_trans [OF follows_trans [OF follows_trans [OF 1 2] 3] 4]
  show ?thesis by (simp add: playback_thread_func_def Let_def)
qed

lemma follows_echo_fire: "follows False s (echo_fire n v f s)"
  unfolding echo_fire_def Let_def by (rule follows_note_on) simp

lemma notes_off_effect:
  "midi_out (notes_off ns s) = midi_out s @ (if player s then map (\<lambda>n. NoteOff n 127) ns else []) \<and>
   player (notes_off ns s) = player s \<and> active_notes (notes_off ns s) = active_notes s"
proof (induction ns arbitrary: s)
  case Nil
  show ?case by simp
next
  case (Cons n ns)
  from Cons.IH [of "player_note_off n 127 s"] show ?case
    by (simp add: player_note_off_def)
qed

lemma fold_note_offs: "fold apply_msg (map (\<lambda>n. NoteOff n v) ns) A = A - set ns"
  by (induction ns arbitrary: A) (auto simp: apply_msg_def)

lemma fresh_note_offs: "fresh_ons (map (\<lambda>n. NoteOff n v) ns) A"
  by (induction ns arbitrary: A) (auto simp: is_fresh_def)

lemma follows_cleanup: "follows True s (cleanup s)"
  unfolding follows_def cleanup_def
  by (simp add: notes_off_effect fold_note_offs fresh_note_offs)

lemma cleanup_active: "active_notes (cleanup s) = []"
  by (simp add: cleanup_def)

lemma follows_handle_pinch_gesture:
  assumes "handle_pinch_gesture h now s = Inr (b, s')"
  shows "follows True s s'"
proof (cases "(lmList h = [] \<or> length (lmList h) < 21) \<or> \<not> is_pinching h s")
  case True
  with assms have "s' = s" by (auto simp: handle_pinch_gesture_def split: if_splits)
  then show ?thesis by (simp add: follows_refl)
next
  case False
  with assms obtain s2 v where
    s2: "(if \<not> pinch_chord_playing s then
            (case pinch_chord_loop (pinch_chord_notes s) now s of
               Inl e \<Rightarrow> Inl e | Inr s1 \<Rightarrow> Inr (s1\<lparr>pinch_chord_playing := True\<rparr>))
          else Inr s) = Inr s2"
    and s': "s' = send_pitch_bend v s2"
    by (auto simp: handle_pinch_gesture_def split: if_splits sum.splits)
  have "follows True s s2"
  proof (cases "pinch_chord_playing s")
    case True
    with s2 show ?thesis by (simp add: follows_refl)
  next
    case False
    with s2 obtain s1 where l: "pinch_chord_loop (pinch_chord_notes s) now s = Inr s1"
      and e: "s2 = s1\<lparr>pinch_chord_playing := True\<rparr>"
      by (auto split: sum.splits)
    have "follows True s1 s2" unfolding e by (rule follows_same) simp_all
    with follows_pinch_chord_loop [OF l] show ?thesis by (rule follows_trans)
  qed
  moreover have "follows True s2 s'" unfolding s' by (rule follows_send_pitch_bend)
  ultimately show ?thesis by (rule follows_trans)
qed

lemma follows_finger_edge:
  assumes "finger_edge cur i f h hk chord_notes key now (s, keys) = Inr (s', keys')"
  shows "follows True s s'"
proof -
  consider (up) "cur = 1" | (down) "cur \<noteq> 1" "cur = 0" | (other) "cur \<noteq> 1" "cur \<noteq> 0" by blast
  then show ?thesis
  proof cases
    case up
    define V where "V = calculate_dynamic_velocity (velocity_multiplier s) (Some (lmList h)) (int i)"
    show ?thesis
    proof (cases "dict_get2 (prev_states s) hk f")
      case (Inl e)
      with assms up show ?thesis by (simp add: finger_edge_def)
    next
      case (Inr prev)
      show ?thesis
      proof (cases "prev = 0")
        case False
        with assms up Inr have "s' = s" by (simp add: finger_edge_def)
        then show ?thesis by (simp add: follows_refl)
      next
        case True
        with assms up Inr have
          "(case play_chord_loop 0 chord_notes V now s of
              Inl e \<Rightarrow> Inl e | Inr s1 \<Rightarrow> Inr (s1, set_add key keys)) = Inr (s', keys')"
          by (simp add: finger_edge_def Let_def V_def play_chord_enhanced_def)
        then have "play_chord_loop 0 chord_notes V now s = Inr s'"
          by (auto split: sum.splits)
        then show ?thesis by (rule follows_play_chord_loop)
      qed
    qed
  next
    case down
    with assms have "s' = s \<or> s' = stop_chord_enhanced chord_notes s"
      by (auto simp: finger_edge_def split: sum.splits if_splits)
    then show ?thesis
    proof
      assume "s' = s" then show ?thesis by (simp add: follows_refl)
    next
      assume "s' = stop_chord_enhanced chord_notes s"
      then show ?thesis by (intro follows_same) (simp_all add: stop_chord_enhanced_def)
    qed
  next
    case other
    with assms show ?thesis by (simp add: finger_edge_def follows_refl)
  qed
qed

lemma follows_finger_step:
  assumes "finger_step i f h hk chords now (s, cfs, keys) = Inr (s', cfs', keys')"
  shows "follows True s s'"
proof -
  from assms have "s' = s \<or> (\<exists>cur c key ks. finger_edge cur i f h hk c key now (s, keys) = Inr (s', ks))"
    by (auto simp: finger_step_def Let_def split: sum.splits if_splits)
  then show ?thesis by (auto simp: follows_refl dest: follows_finger_edge)
qed

lemma follows_finger_loop:
  "finger_loop i fs h hk chords now (s, cfs, keys) = Inr (s', cfs', keys') \<Longrightarrow> follows True s s'"
proof (induction fs arbitrary: i s cfs keys)
  case Nil
  then show ?case by (simp add: follows_refl)
next
  case (Cons f fs)
  from Cons.prems obtain s1 cfs1 keys1 where
    st: "finger_step i f h hk chords now (s, cfs, keys) = Inr (s1, cfs1, keys1)"
    and lp: "finger_loop (Suc i) fs h hk chords now (s1, cfs1, keys1) = Inr (s', cfs', keys')"
    by (auto split: sum.splits)
  from follows_finger_step [OF st] Cons.IH [OF lp] show ?case by (rule follows_trans)
qed

lemma follows_hands_loop:
  "hands_loop hs chords now (s, cfs, keys, p) = Inr (s', cfs', keys', p') \<Longrightarrow> follows True s s'"
proof (induction hs arbitrary: s cfs keys p)
  case Nil
  then show ?case by (simp add: follows_refl)
next
  case (Cons h hs)
  from Cons.prems obtain b s1 where hp: "handle_pinch_gesture h now s = Inr (b, s1)"
    by (auto simp: Let_def split: sum.splits)
  note f1 = follows_handle_pinch_gesture [OF hp]
  show ?case
  proof (cases b)
    case True
    with Cons.prems hp have "hands_loop hs chords now (s1, cfs, keys, True) = Inr (s', cfs', keys', p')"
      by (simp add: Let_def)
    from f1 Cons.IH [OF this] show ?thesis by (rule follows_trans)
  next
    case False
    with Cons.prems hp obtain s2 cfs2 keys2 where
      fl: "finger_loop 0 finger_names h (if hand_type h = ''Left'' then ''left'' else ''right'') chords now
             (s1, cfs, keys) = Inr (s2, cfs2, keys2)"
      and hl: "hands_loop hs chords now (s2, cfs2, keys2, p) = Inr (s', cfs', keys', p')"
      by (auto simp: Let_def split: sum.splits)
    from follows_trans [OF f1 follows_finger_loop [OF fl]] Cons.IH [OF hl]
    show ?thesis by (rule follows_trans)
  qed
qed

lemma follows_process_hands:
  assumes "process_hands hands now s = Inr s'"
  shows "follows True s s'"
proof -
  from assms obtain chords s1 cfs keys p where
    hl: "hands_loop hands chords now (s, all_down chords, [], False) = Inr (s1, cfs, keys, p)"
    and e: "s' = (if \<not> p \<and> pinch_chord_playing (s1\<lparr>active_keys := keys\<rparr>) then
                    send_pitch_bend 8192
                      ((pinch_stop_loop (pinch_chord_notes (s1\<lparr>active_keys := keys\<rparr>))
                          (s1\<lparr>active_keys := keys\<rparr>))\<lparr>pinch_chord_playing := False\<rparr>)
                  else s1\<lparr>active_keys := keys\<rparr>)\<lparr>prev_states := cfs\<rparr>"
    by (auto simp: process_hands_def Let_def split: sum.splits)
  let ?s2 = "s1\<lparr>active_keys := keys\<rparr>"
  let ?s4 = "pinch_stop_loop (pinch_chord_notes ?s2) ?s2"
  let ?s5 = "?s4\<lparr>pinch_chord_playing := False\<rparr>"
  let ?s3 = "if \<not> p \<and> pinch_chord_playing ?s2 then send_pitch_bend 8192 ?s5 else ?s2"
  have 1: "follows True s s1" by (rule follows_hands_loop [OF hl])
  have 2: "follows True s1 ?s2" by (rule follows_same) simp_all
  have 45: "follows True ?s4 ?s5" by (rule follows_same) simp_all
  have 3: "follows True ?s2 ?s3"
  proof (cases "\<not> p \<and> pinch_chord_playing ?s2")
    case True
    have "follows True ?s2 (send_pitch_bend 8192 ?s5)"
      by (rule follows_trans [OF follows_trans [OF follows_pinch_stop_loop 45] follows_send_pitch_bend])
    then show ?thesis by (simp only: if_P [OF True])
  next
    case False
    show ?thesis by (simp only: if_not_P [OF False] follows_refl)
  qed
  have 4: "follows True ?s3 (?s3\<lparr>prev_states := cfs\<rparr>)" by (rule follows_same) simp_all
  have "s' = ?s3\<lparr>prev_states := cfs\<rparr>" unfolding e ..
  with follows_trans [OF follows_trans [OF follows_trans [OF 1 2] 3] 4] show ?thesis by simp
qed

lemma follows_no_hands:
  assumes "no_hands s = Inr s'"
  shows "follows True s s'"
proof (cases "get_current_chords s")
  case (Inl e)
  with assms show ?thesis by (simp add: no_hands_def)
next
  case (Inr chords)
  let ?s2 = "s\<lparr>prev_states := all_down chords, active_keys := []\<rparr>"
  let ?s3 = "stop_all (active_notes ?s2) ?s2"
  let ?s5 = "?s3\<lparr>pinch_chord_playing := False\<rparr>"
  have 1: "follows True s ?s2" by (rule follows_same) simp_all
  have 2: "follows True ?s2 ?s3" by (rule follows_stop_all)
  have 3: "follows True ?s3 ?s5" by (rule follows_same) simp_all
  have 4: "follows True ?s5 (send_pitch_bend 8192 ?s5)" by (rule follows_send_pitch_bend)
  note a = follows_trans [OF 1 2]
  note b = follows_trans [OF follows_trans [OF a 3] 4]
  from assms Inr have r: "(if pinch_chord_playing ?s3 then Inr (send_pitch_bend 8192 ?s5) else Inr ?s3) = Inr s'"
    by (simp add: no_hands_def Let_def split: if_splits)
  show ?thesis
  proof (cases "pinch_chord_playing ?s3")
    case True
    from r have "s' = send_pitch_bend 8192 ?s5" unfolding if_P [OF True] by simp
    with b show ?thesis by simp
  next
    case False
    from r have "s' = ?s3" unfolding if_not_P [OF False] by simp
    with a show ?thesis by simp
  qed
qed

lemma follows_run_frame:
  assumes "run_frame w hands now s = Inr s'"
  shows "follows True s s'"
proof -
  from assms obtain s1 where
    r: "(if hands \<noteq> [] then process_hands hands now s else no_hands s) = Inr s1"
    and e: "s' = s1\<lparr>screen_width := w\<rparr>"
    by (auto simp: run_frame_def split: sum.splits)
  from r have "follows True s s1"
    by (auto split: if_splits dest: follows_process_hands follows_no_hands)
  moreover have "follows True s1 s'" unfolding e by (rule follows_same) simp_all
  ultimately show ?thesis by (rule follows_trans)
qed

lemma follows_cycle_scale: "cycle_scale s = Inr s' \<Longrightarrow> follows b s s'"
proof (rule follows_same)
  assume c: "cycle_scale s = Inr s'"
  then show "player s' = player s"
    by (auto simp: cycle_scale_def Let_def split: sum.splits)
  from cycle_scale_resets [OF c] show "active_notes s' = active_notes s" "midi_out s' = midi_out s"
    by auto
qed

lemma follows_handle_keyboard_input:
  assumes "handle_keyboard_input key now s = Inr s'"
  shows "follows True s s'"
proof (cases "key = 115")
  case True
  with assms have "cycle_scale s = Inr s'" by (simp add: handle_keyboard_input_def)
  then show ?thesis by (rule follows_cycle_scale)
next
  case False
  with assms have "player s' = player s \<and> active_notes s' = active_notes s \<and> midi_out s' = midi_out s"
    by (auto simp: handle_keyboard_input_def toggle_recording_def playback_recording_def Let_def
        split: if_splits)
  then show ?thesis by (intro follows_same) simp_all
qed

lemma follows_run_task:
  assumes "run_task t now s = Inr s'"
  shows "follows False s s'"
proof (cases t)
  case (EchoTimer n v f)
  with assms show ?thesis by (auto simp: follows_echo_fire)
next
  case (SustainThread c)
  with assms show ?thesis by (auto intro: follows_weaken follows_stop_after_delay)
next
  case PlaybackThread
  with assms show ?thesis by (auto simp: follows_playback_thread_func)
qed

lemma follows_step:
  assumes "step ev now s = Inr s'"
  shows "follows (\<not> resends ev s) s s'"
proof (cases ev)
  case (Frame w hands)
  with assms have "follows True s s'" by (auto dest: follows_run_frame)
  then show ?thesis by (rule follows_weaken)
next
  case (Key k)
  with assms have "follows True s s'" by (auto dest: follows_handle_keyboard_input)
  then show ?thesis by (rule follows_weaken)
next
  case Shutdown
  with assms have "follows True s s'" by (auto simp: follows_cleanup)
  then show ?thesis by (rule follows_weaken)
next
  case (Fire i)
  show ?thesis
  proof (cases "i < length (background s)")
    case False
    with assms Fire show ?thesis by (simp add: follows_refl)
  next
    case True
    let ?s0 = "s\<lparr>background := take i (background s) @ drop (Suc i) (background s)\<rparr>"
    have 0: "follows b s ?s0" for b by (rule follows_same) simp_all
    from assms Fire True have rt: "run_task (background s ! i) now ?s0 = Inr s'" by simp
    show ?thesis
    proof (cases "background s ! i")
      case (SustainThread c)
      with rt have "follows True ?s0 s'" by (auto dest: follows_stop_after_delay)
      with 0 have "follows True s s'" by (rule follows_trans)
      then show ?thesis by (rule follows_weaken)
    next
      case (EchoTimer n v f)
      then have "resends ev s" using Fire True by (simp add: resends_def)
      moreover from 0 follows_run_task [OF rt] have "follows False s s'" by (rule follows_trans)
      ultimately show ?thesis by simp
    next
      case PlaybackThread
      then have "resends ev s" using Fire True by (simp add: resends_def)
      moreover from 0 follows_run_task [OF rt] have "follows False s s'" by (rule follows_trans)
      ultimately show ?thesis by simp
    qed
  qed
qed

section \<open>Every step keeps the active notes in line with what was sent\<close>

lemma fold_apply_new:
  "n \<in> fold apply_msg ms A \<Longrightarrow> n \<notin> A \<Longrightarrow> \<exists>v. NoteOn n v \<in> set ms"
proof (induction ms arbitrary: A)
  case Nil
  then show ?case by simp
next
  case (Cons m ms)
  show ?case
  proof (cases "n \<in> apply_msg m A")
    case True
    with Cons.prems(2) have "\<exists>v. m = NoteOn n v"
      by (cases m) (auto simp: apply_msg_def)
    then show ?thesis by auto
  next
    case False
    from Cons.prems(1) have "n \<in> fold apply_msg ms (apply_msg m A)" by simp
    from Cons.IH [OF this False] show ?thesis by auto
  qed
qed

lemma fold_apply_gone:
  "n \<notin> fold apply_msg ms A \<Longrightarrow> n \<in> A \<Longrightarrow> \<exists>v. NoteOff n v \<in> set ms"
proof (induction ms arbitrary: A)
  case Nil
  then show ?case by simp
next
  case (Cons m ms)
  show ?case
  proof (cases "n \<in> apply_msg m A")
    case False
    with Cons.prems(2) have "\<exists>v. m = NoteOff n v"
      by (cases m) (auto simp: apply_msg_def)
    then show ?thesis by auto
  next
    case True
    from Cons.prems(1) have "n \<notin> fold apply_msg ms (apply_msg m A)" by simp
    from Cons.IH [OF this True] show ?thesis by auto
  qed
qed

lemma follows_sent:
  assumes "follows b s s'"
  shows "midi_out s' = midi_out s @ sent s s'"
proof -
  from assms obtain ms where "midi_out s' = midi_out s @ ms" unfolding follows_def by blast
  then show ?thesis by (simp add: sent_def)
qed

lemma follows_mirror:
  assumes "follows b s s'" and "player s"
  shows "set (active_notes s') = fold apply_msg (sent s s') (set (active_notes s)) \<and>
         (b \<longrightarrow> fresh_ons (sent s s') (set (active_notes s)))"
proof -
  from assms obtain ms where m: "midi_out s' = midi_out s @ ms"
    and a: "set (active_notes s') = fold apply_msg ms (set (active_notes s)) \<and>
         (b \<longrightarrow> fresh_ons ms (set (active_notes s)))"
    unfolding follows_def by blast
  from m have "sent s s' = ms" by (simp add: sent_def)
  with a show ?thesis by simp
qed

lemma follows_steps: "steps evs s = Inr s' \<Longrightarrow> follows False s s'"
proof (induction evs arbitrary: s)
  case Nil
  then show ?case by (simp add: follows_refl)
next
  case (Cons e evs)
  obtain ev now where e: "e = (ev, now)" by (cases e)
  with Cons.prems obtain s1 where 1: "step ev now s = Inr s1" and 2: "steps evs s1 = Inr s'"
    by (auto split: sum.splits)
  from follows_step [OF 1] have "follows False s s1"
    by (cases "resends ev s") (auto intro: follows_weaken)
  from this Cons.IH [OF 2] show ?case by (rule follows_trans)
qed

text \<open>
  C1. Take a piano with a player whose list of active notes has no repetition, and any
  step that goes through: a frame (chord presses, the start and the end of the pinch
  chord, the flush when no hand is seen), a key, a piece of background work (an echo, a
  sustain release, playback) or the shutdown. The step only adds messages to the MIDI
  stream, and the active notes after it are the active notes before it with every
  note-on of the step added and every note-off removed, in the order sent. So a note
  that became active has a note-on in the step and a note that stopped being active has a
  note-off in it; the list stays without repetition; and after the shutdown it is empty.
  In every state reached from the initial piano there is a player, no repetition, and the
  active notes are what the whole MIDI stream leaves switched on.
\<close>

theorem active_notes_mirror_midi:
  "(player s \<and> distinct (active_notes s) \<and> step ev now s = Inr s' \<longrightarrow>
      midi_out s' = midi_out s @ sent s s' \<and>
      set (active_notes s') = fold apply_msg (sent s s') (set (active_notes s)) \<and>
      (\<forall>n. n \<in> set (active_notes s') \<and> n \<notin> set (active_notes s) \<longrightarrow>
           (\<exists>v. NoteOn n v \<in> set (sent s s'))) \<and>
      (\<forall>n. n \<in> set (active_notes s) \<and> n \<notin> set (active_notes s') \<longrightarrow>
           (\<exists>v. NoteOff n v \<in> set (sent s s'))) \<and>
      distinct (active_notes s') \<and> player s' \<and>
      (ev = Shutdown \<longrightarrow> active_notes s' = [])) \<and>
   (steps evs initial_piano = Inr s \<longrightarrow>
      player s \<and> distinct (active_notes s) \<and>
      set (active_notes s) = fold apply_msg (midi_out s) {})"
proof -
  have one: "midi_out s' = midi_out s @ sent s s' \<and>
      set (active_notes s') = fold apply_msg (sent s s') (set (active_notes s)) \<and>
      (\<forall>n. n \<in> set (active_notes s') \<and> n \<notin> set (active_notes s) \<longrightarrow>
           (\<exists>v. NoteOn n v \<in> set (sent s s'))) \<and>
      (\<forall>n. n \<in> set (active_notes s) \<and> n \<notin> set (active_notes s') \<longrightarrow>
           (\<exists>v. NoteOff n v \<in> set (sent s s'))) \<and>
      distinct (active_notes s') \<and> player s' \<and>
      (ev = Shutdown \<longrightarrow> active_notes s' = [])"
    if p: "player s" and d: "distinct (active_notes s)" and st: "step ev now s = Inr s'"
  proof -
    note f = follows_step [OF st]
    from follows_mirror [OF f p]
    have mir: "set (active_notes s') = fold apply_msg (sent s s') (set (active_notes s))" by blast
    from f p d have pd: "player s'" "distinct (active_notes s')" unfolding follows_def by auto
    have on: "\<exists>v. NoteOn n v \<in> set (sent s s')"
      if "n \<in> set (active_notes s')" "n \<notin> set (active_notes s)" for n
      using that fold_apply_new [of n "sent s s'" "set (active_notes s)"] mir by simp
    have off: "\<exists>v. NoteOff n v \<in> set (sent s s')"
      if "n \<in> set (active_notes s)" "n \<notin> set (active_notes s')" for n
      using that fold_apply_gone [of n "sent s s'" "set (active_notes s)"] mir by simp
    have sh: "active_notes s' = []" if "ev = Shutdown"
      using that st by (auto simp: cleanup_active)
    from follows_sent [OF f] mir on off pd sh show ?thesis by blast
  qed
  have all: "player s \<and> distinct (active_notes s) \<and> set (active_notes s) = fold apply_msg (midi_out s) {}"
    if r: "steps evs initial_piano = Inr s"
  proof -
    note f = follows_steps [OF r]
    have i: "player initial_piano" "active_notes initial_piano = []" "midi_out initial_piano = []"
      by (simp_all add: initial_piano_def)
    from f i have "player s" "distinct (active_notes s)" unfolding follows_def by auto
    moreover from follows_mirror [OF f i(1)] i have "set (active_notes s) = fold apply_msg (midi_out s) {}"
      by (simp add: sent_def)
    ultimately show ?thesis by blast
  qed
  from one all show ?thesis by blast
qed

theorem active_notes_mirror_midi_witness:
  "player initial_piano \<and> distinct (active_notes initial_piano) \<and>
   step (Frame 1280 [left_thumb_up]) 0 initial_piano =
     Inr (initial_piano\<lparr>active_notes := [62, 66, 69], active_keys := [''left_thumb''],
            prev_states := [(''left'', [(''thumb'', 1), (''index'', 0), (''middle'', 0), (''ring'', 0), (''pinky'', 0)]),
                            (''right'', [(''thumb'', 0), (''index'', 0), (''middle'', 0), (''ring'', 0), (''pinky'', 0)])],
            midi_out := [NoteOn 62 20, NoteOn 66 20, NoteOn 69 20]\<rparr>) \<and>
   (\<exists>v. NoteOn 66 v \<in> set [NoteOn 62 20, NoteOn 66 20, NoteOn 69 20]) \<and>
   steps [(Frame 1280 [left_thumb_up], 0), (Shutdown, 1)] initial_piano =
     Inr (cleanup (initial_piano\<lparr>active_notes := [62, 66, 69], active_keys := [''left_thumb''],
            prev_states := [(''left'', [(''thumb'', 1), (''index'', 0), (''middle'', 0), (''ring'', 0), (''pinky'', 0)]),
                            (''right'', [(''thumb'', 0), (''index'', 0), (''middle'', 0), (''ring'', 0), (''pinky'', 0)])],
            midi_out := [NoteOn 62 20, NoteOn 66 20, NoteOn 69 20]\<rparr>)) \<and>
   active_notes (cleanup (initial_piano\<lparr>active_notes := [62, 66, 69], active_keys := [''left_thumb''],
            prev_states := [(''left'', [(''thumb'', 1), (''index'', 0), (''middle'', 0), (''ring'', 0), (''pinky'', 0)]),
                            (''right'', [(''thumb'', 0), (''index'', 0), (''middle'', 0), (''ring'', 0), (''pinky'', 0)])],
            midi_out := [NoteOn 62 20, NoteOn 66 20, NoteOn 69 20]\<rparr>)) = []"
proof -
  let ?t = "initial_piano\<lparr>active_notes := [62, 66, 69], active_keys := [''left_thumb''],
            prev_states := [(''left'', [(''thumb'', 1), (''index'', 0), (''middle'', 0), (''ring'', 0), (''pinky'', 0)]),
                            (''right'', [(''thumb'', 0), (''index'', 0), (''middle'', 0), (''ring'', 0), (''pinky'', 0)])],
            midi_out := [NoteOn 62 20, NoteOn 66 20, NoteOn 69 20]\<rparr>"
  have i: "player initial_piano" "distinct (active_notes initial_piano)"
    "active_notes initial_piano = []" "midi_out initial_piano = []"
    by (simp_all add: initial_piano_def)
  have st: "step (Frame 1280 [left_thumb_up]) 0 initial_piano = Inr ?t"
    by (simp add: thumb_frame)
  have snt: "sent initial_piano ?t = [NoteOn 62 20, NoteOn 66 20, NoteOn 69 20]"
    by (simp add: sent_def i)
  from active_notes_mirror_midi [of initial_piano "Frame 1280 [left_thumb_up]" 0 ?t, THEN conjunct1,
      rule_format, OF conjI [OF i(1) conjI [OF i(2) st]]]
  have on: "\<forall>n. n \<in> set (active_notes ?t) \<and> n \<notin> set (active_notes initial_piano) \<longrightarrow>
           (\<exists>v. NoteOn n v \<in> set (sent initial_piano ?t))"
    and pd: "player ?t" "distinct (active_notes ?t)"
    by blast+
  from on have "66 \<in> set (active_notes ?t) \<and> 66 \<notin> set (active_notes initial_piano) \<longrightarrow>
           (\<exists>v. NoteOn 66 v \<in> set (sent initial_piano ?t))"
    by blast
  then have on': "\<exists>v. NoteOn 66 v \<in> set [NoteOn 62 20, NoteOn 66 20, NoteOn 69 20]"
    unfolding snt i(3) by simp
  have sh: "step Shutdown 1 ?t = Inr (cleanup ?t)" by simp
  from active_notes_mirror_midi [of ?t Shutdown 1 "cleanup ?t", THEN conjunct1,
      rule_format, OF conjI [OF pd(1) conjI [OF pd(2) sh]]]
  have e: "active_notes (cleanup ?t) = []" by blast
  have run: "steps [(Frame 1280 [left_thumb_up], 0), (Shutdown, 1)] initial_piano = Inr (cleanup ?t)"
    using st by simp
  from i(1,2) st on' run e show ?thesis by blast
qed

section \<open>Note-ons and notes that are already on\<close>

lemma play_chord_loop_sends:
  "play_chord_loop i ns v now s = Inr s' \<Longrightarrow>
     \<exists>ms. midi_out s' = midi_out s @ ms \<and> (\<forall>m \<in> set ms. \<exists>n \<in> set ns. m = NoteOn n v)"
proof (induction ns arbitrary: i s)
  case Nil
  then show ?case by simp
next
  case (Cons n ns)
  show ?case
  proof (cases "n \<in> set (active_notes s)")
    case True
    with Cons.prems have "play_chord_loop (Suc i) ns v now s = Inr s'" by simp
    from Cons.IH [OF this] show ?thesis by auto
  next
    case False
    let ?s2 = "(play_single_note n v s)\<lparr>active_notes := set_add n (active_notes (play_single_note n v s))\<rparr>"
    let ?s3 = "if echo_enabled ?s2 \<and> i = 0
               then ?s2\<lparr>background := background ?s2 @ [EchoTimer n v 0.7, EchoTimer n v 0.4]\<rparr> else ?s2"
    have m3: "midi_out ?s3 = midi_out s @ (if player s then [NoteOn n v] else [])"
      by (simp add: play_single_note_def)
    have "\<exists>s4. midi_out s4 = midi_out ?s3 \<and> play_chord_loop (Suc i) ns v now s4 = Inr s'"
    proof (cases "recording ?s3")
      case True
      with Cons.prems False obtain s4 where
        r: "record_event n v ''on'' now ?s3 = Inr s4" and l: "play_chord_loop (Suc i) ns v now s4 = Inr s'"
        by (simp add: Let_def split: sum.splits)
      from record_event_frame [OF r] l show ?thesis by blast
    next
      case rec: False
      with Cons.prems False have "play_chord_loop (Suc i) ns v now ?s3 = Inr s'"
        by (simp add: Let_def)
      then show ?thesis by blast
    qed
    then obtain s4 where m4: "midi_out s4 = midi_out ?s3"
      and l: "play_chord_loop (Suc i) ns v now s4 = Inr s'" by blast
    from Cons.IH [OF l] obtain ms where
      ms: "midi_out s' = midi_out s4 @ ms" "\<forall>m \<in> set ms. \<exists>n \<in> set ns. m = NoteOn n v" by blast
    from ms(1) m4 m3 have "midi_out s' = midi_out s @ ((if player s then [NoteOn n v] else []) @ ms)"
      by simp
    moreover from ms(2) have "\<forall>m \<in> set ((if player s then [NoteOn n v] else []) @ ms).
        \<exists>k \<in> set (n # ns). m = NoteOn k v" by auto
    ultimately show ?thesis by blast
  qed
qed

lemma fresh_only_ons:
  "fresh_ons ms A \<Longrightarrow> \<forall>m \<in> set ms. \<exists>k w. m = NoteOn k w \<Longrightarrow> NoteOn n v \<in> set ms \<Longrightarrow> n \<notin> A"
proof (induction ms arbitrary: A)
  case Nil
  then show ?case by simp
next
  case (Cons m ms)
  from Cons.prems(2) obtain k w where m: "m = NoteOn k w" by auto
  from Cons.prems(1) m have k: "k \<notin> A" and f: "fresh_ons ms (insert k A)"
    by (simp_all add: is_fresh_def apply_msg_def)
  show ?case
  proof (cases "NoteOn n v \<in> set ms")
    case True
    from Cons.IH [OF f _ True] Cons.prems(2) show ?thesis by auto
  next
    case False
    with Cons.prems(3) m have "n = k" by simp
    with k show ?thesis by simp
  qed
qed

text \<open>
  C3, amended. With a player, a step that is neither an echo timer nor the playback
  thread never sends a note-on for a note that is active at the moment it is sent; and
  every note-on that \<^verbatim>\<open>play_chord_enhanced\<close> sends is for a note of the chord that was
  not active, with the velocity of the press. (An echo timer and the playback thread send
  their note-ons whether or not the note is active.)
\<close>

theorem note_on_only_for_silent_notes:
  "(player s \<and> step ev now s = Inr s' \<and> \<not> resends ev s \<longrightarrow>
      fresh_ons (sent s s') (set (active_notes s))) \<and>
   (player s \<and> play_chord_enhanced chord_notes v now s = Inr s' \<longrightarrow>
      (\<forall>n w. NoteOn n w \<in> set (sent s s') \<longrightarrow>
         n \<notin> set (active_notes s) \<and> n \<in> set chord_notes \<and> w = v))"
proof -
  have a: "fresh_ons (sent s s') (set (active_notes s))"
    if "player s" "step ev now s = Inr s'" "\<not> resends ev s"
    using follows_mirror [OF follows_step [OF that(2)] that(1)] that(3) by simp
  have b: "n \<notin> set (active_notes s) \<and> n \<in> set chord_notes \<and> w = v"
    if p: "player s" and pl: "play_chord_enhanced chord_notes v now s = Inr s'"
      and on: "NoteOn n w \<in> set (sent s s')" for n w
  proof -
    from pl have l: "play_chord_loop 0 chord_notes v now s = Inr s'"
      by (simp add: play_chord_enhanced_def)
    from play_chord_loop_sends [OF l] obtain ms where
      ms: "midi_out s' = midi_out s @ ms" "\<forall>m \<in> set ms. \<exists>k \<in> set chord_notes. m = NoteOn k v"
      by blast
    from ms(1) have s: "sent s s' = ms" by (simp add: sent_def)
    from follows_mirror [OF follows_play_chord_loop [OF l] p]
    have fr: "fresh_ons ms (set (active_notes s))" unfolding s by simp
    from on have on': "NoteOn n w \<in> set ms" unfolding s .
    from ms(2) have "\<forall>m \<in> set ms. \<exists>k w. m = NoteOn k w" by blast
    from fresh_only_ons [OF fr this on'] have "n \<notin> set (active_notes s)" .
    moreover from ms(2) on' have "n \<in> set chord_notes \<and> w = v" by auto
    ultimately show ?thesis by simp
  qed
  from a b show ?thesis by blast
qed

lemma echo_run:
  "steps [(Key 101, 0), (Frame 1280 [left_thumb_up], 1)] initial_piano =
     Inr (initial_piano\<lparr>echo_enabled := True, active_notes := [62, 66, 69], active_keys := [''left_thumb''],
            prev_states := [(''left'', [(''thumb'', 1), (''index'', 0), (''middle'', 0), (''ring'', 0), (''pinky'', 0)]),
                            (''right'', [(''thumb'', 0), (''index'', 0), (''middle'', 0), (''ring'', 0), (''pinky'', 0)])],
            midi_out := [NoteOn 62 20, NoteOn 66 20, NoteOn 69 20],
            background := [EchoTimer 62 20 0.7, EchoTimer 62 20 0.4]\<rparr>)"
proof -
  have "handle_keyboard_input 101 0 initial_piano = Inr (initial_piano\<lparr>echo_enabled := True\<rparr>)"
    by (simp add: handle_keyboard_input_def initial_piano_def)
  then show ?thesis by (simp add: thumb_frame_echo)
qed

lemma py_int_14: "py_int (real_of_int 20 * 0.7) = 14"
  by (simp add: py_int_def)

text \<open>
  C3, as claimed, fails. With the echo switched on (key \<^verbatim>\<open>'e'\<close>, 101), raising the left
  thumb sends the note-ons of 62, 66 and 69 and starts two echo timers. When the first
  timer runs, 62 is still active and no note-off has been sent, yet the step sends a
  second note-on for 62 (velocity int(20 * 0.7) = 14).
\<close>

theorem echo_resends_note_on_counterexample:
  "steps [(Key 101, 0), (Frame 1280 [left_thumb_up], 1)] initial_piano =
     Inr (initial_piano\<lparr>echo_enabled := True, active_notes := [62, 66, 69], active_keys := [''left_thumb''],
            prev_states := [(''left'', [(''thumb'', 1), (''index'', 0), (''middle'', 0), (''ring'', 0), (''pinky'', 0)]),
                            (''right'', [(''thumb'', 0), (''index'', 0), (''middle'', 0), (''ring'', 0), (''pinky'', 0)])],
            midi_out := [NoteOn 62 20, NoteOn 66 20, NoteOn 69 20],
            background := [EchoTimer 62 20 0.7, EchoTimer 62 20 0.4]\<rparr>) \<and>
   steps [(Key 101, 0), (Frame 1280 [left_thumb_up], 1), (Fire 0, 2)] initial_piano =
     Inr (initial_piano\<lparr>echo_enabled := True, active_notes := [62, 66, 69], active_keys := [''left_thumb''],
            prev_states := [(''left'', [(''thumb'', 1), (''index'', 0), (''middle'', 0), (''ring'', 0), (''pinky'', 0)]),
                            (''right'', [(''thumb'', 0), (''index'', 0), (''middle'', 0), (''ring'', 0), (''pinky'', 0)])],
            midi_out := [NoteOn 62 20, NoteOn 66 20, NoteOn 69 20, NoteOn 62 14],
            background := [EchoTimer 62 20 0.4]\<rparr>)"
proof -
  let ?s1 = "initial_piano\<lparr>echo_enabled := True, active_notes := [62, 66, 69], active_keys := [''left_thumb''],
            prev_states := [(''left'', [(''thumb'', 1), (''index'', 0), (''middle'', 0), (''ring'', 0), (''pinky'', 0)]),
                            (''right'', [(''thumb'', 0), (''index'', 0), (''middle'', 0), (''ring'', 0), (''pinky'', 0)])],
            midi_out := [NoteOn 62 20, NoteOn 66 20, NoteOn 69 20],
            background := [EchoTimer 62 20 0.7, EchoTimer 62 20 0.4]\<rparr>"
  have f: "step (Fire 0) 2 ?s1 =
     Inr (initial_piano\<lparr>echo_enabled := True, active_notes := [62, 66, 69], active_keys := [''left_thumb''],
            prev_states := [(''left'', [(''thumb'', 1), (''index'', 0), (''middle'', 0), (''ring'', 0), (''pinky'', 0)]),
                            (''right'', [(''thumb'', 0), (''index'', 0), (''middle'', 0), (''ring'', 0), (''pinky'', 0)])],
            midi_out := [NoteOn 62 20, NoteOn 66 20, NoteOn 69 20, NoteOn 62 14],
            background := [EchoTimer 62 20 0.4]\<rparr>)"
    by (simp add: echo_fire_def play_single_note_def set_add_def initial_piano_def py_int_def Let_def)
  have "steps [(Key 101, 0), (Frame 1280 [left_thumb_up], 1), (Fire 0, 2)] initial_piano =
        (case steps [(Key 101, 0), (Frame 1280 [left_thumb_up], 1)] initial_piano of
           Inl e \<Rightarrow> Inl e | Inr s \<Rightarrow> step (Fire 0) 2 s)"
    by (simp split: sum.splits)
  with echo_run f show ?thesis by simp
qed

theorem note_on_only_for_silent_notes_witness:
  "player sounding_piano \<and>
   play_chord_enhanced [62, 66, 78] 90 12 sounding_piano =
     Inr (sounding_piano\<lparr>active_notes := [62, 66, 69, 74, 78],
            midi_out := [NoteOn 62 90, NoteOn 66 90, NoteOn 69 90, NoteOn 74 90, NoteOn 78 90],
            recorded_notes := [\<lparr>ev_note = 78, ev_velocity = 90, ev_time = 2, ev_action = ''on''\<rparr>]\<rparr>) \<and>
   sent sounding_piano (sounding_piano\<lparr>active_notes := [62, 66, 69, 74, 78],
            midi_out := [NoteOn 62 90, NoteOn 66 90, NoteOn 69 90, NoteOn 74 90, NoteOn 78 90],
            recorded_notes := [\<lparr>ev_note = 78, ev_velocity = 90, ev_time = 2, ev_action = ''on''\<rparr>]\<rparr>)
     = [NoteOn 78 90] \<and>
   78 \<notin> set (active_notes sounding_piano) \<and>
   \<not> resends Shutdown sounding_piano \<and>
   fresh_ons (sent sounding_piano (cleanup sounding_piano)) (set (active_notes sounding_piano))"
proof -
  let ?s' = "sounding_piano\<lparr>active_notes := [62, 66, 69, 74, 78],
            midi_out := [NoteOn 62 90, NoteOn 66 90, NoteOn 69 90, NoteOn 74 90, NoteOn 78 90],
            recorded_notes := [\<lparr>ev_note = 78, ev_velocity = 90, ev_time = 2, ev_action = ''on''\<rparr>]\<rparr>"
  have p: "player sounding_piano" by (simp add: sounding_piano_def initial_piano_def)
  have pl: "play_chord_enhanced [62, 66, 78] 90 12 sounding_piano = Inr ?s'"
    by (simp add: play_chord_enhanced_def sounding_piano_def initial_piano_def play_single_note_def
        set_add_def record_event_def Let_def)
  have snt: "sent sounding_piano ?s' = [NoteOn 78 90]"
    by (simp add: sent_def sounding_piano_def)
  then have on: "NoteOn 78 90 \<in> set (sent sounding_piano ?s')" by simp
  from note_on_only_for_silent_notes [of sounding_piano _ 12 ?s' "[62, 66, 78]" 90, THEN conjunct2,
      rule_format, OF conjI [OF p pl] on]
  have n: "78 \<notin> set (active_notes sounding_piano)" by blast
  have nr: "\<not> resends Shutdown sounding_piano" by (simp add: resends_def)
  have sh: "step Shutdown 13 sounding_piano = Inr (cleanup sounding_piano)" by simp
  from note_on_only_for_silent_notes [of sounding_piano Shutdown 13 "cleanup sounding_piano",
      THEN conjunct1, rule_format, OF conjI [OF p conjI [OF sh nr]]]
  have fr: "fresh_ons (sent sounding_piano (cleanup sounding_piano)) (set (active_notes sounding_piano))" .
  from p pl snt n nr fr show ?thesis by blast
qed

text \<open>
  Playback does the same with a recording that holds two presses of 62 and no release
  between them (the flush of a frame without hands is not recorded).
\<close>

lemma playback_resends_note_on:
  "playback_thread_func (initial_piano\<lparr>recorded_notes :=
       [\<lparr>ev_note = 62, ev_velocity = 20, ev_time = 1, ev_action = ''on''\<rparr>,
        \<lparr>ev_note = 62, ev_velocity = 20, ev_time = 3, ev_action = ''on''\<rparr>]\<rparr>) =
   initial_piano\<lparr>recorded_notes :=
       [\<lparr>ev_note = 62, ev_velocity = 20, ev_time = 1, ev_action = ''on''\<rparr>,
        \<lparr>ev_note = 62, ev_velocity = 20, ev_time = 3, ev_action = ''on''\<rparr>],
     midi_out := [NoteOn 62 20, NoteOn 62 20, NoteOff 62 127]\<rparr>"
  by (simp add: playback_thread_func_def initial_piano_def play_single_note_def player_note_off_def
      set_add_def set_discard_def Let_def)

section \<open>The velocity of the pinch chord\<close>

lemma pinch_chord_loop_multiplier:
  "pinch_chord_loop ns now (s\<lparr>velocity_multiplier := m\<rparr>) =
     map_sum id (\<lambda>t. t\<lparr>velocity_multiplier := m\<rparr>) (pinch_chord_loop ns now s)"
proof (induction ns arbitrary: s)
  case Nil
  show ?case by simp
next
  case (Cons n ns)
  show ?case
  proof (cases "n \<in> set (active_notes s)")
    case True
    with Cons.IH [of s] show ?thesis by simp
  next
    case False
    let ?s2 = "(play_single_note n 120 s)\<lparr>active_notes := set_add n (active_notes (play_single_note n 120 s))\<rparr>"
    have c2: "(play_single_note n 120 (s\<lparr>velocity_multiplier := m\<rparr>))
                \<lparr>active_notes := set_add n (active_notes (play_single_note n 120 (s\<lparr>velocity_multiplier := m\<rparr>)))\<rparr>
              = ?s2\<lparr>velocity_multiplier := m\<rparr>"
      by (simp add: play_single_note_def)
    show ?thesis
    proof (cases "recording ?s2")
      case rec: False
      then have "recording (?s2\<lparr>velocity_multiplier := m\<rparr>) = False" by simp
      with False rec Cons.IH [of ?s2] show ?thesis
        unfolding pinch_chord_loop.simps Let_def c2 by simp
    next
      case rec: True
      then have r: "recording (?s2\<lparr>velocity_multiplier := m\<rparr>) = True" by simp
      show ?thesis
      proof (cases "recording_start_time ?s2")
        case None
        then have "record_event n 120 ''on'' now ?s2 = Inl TypeError"
          "record_event n 120 ''on'' now (?s2\<lparr>velocity_multiplier := m\<rparr>) = Inl TypeError"
          by (simp_all add: record_event_def)
        with False rec r show ?thesis
          unfolding pinch_chord_loop.simps Let_def c2 by simp
      next
        case (Some t0)
        let ?s3 = "?s2\<lparr>recorded_notes := recorded_notes ?s2 @
                 [\<lparr>ev_note = n, ev_velocity = 120, ev_time = now - t0, ev_action = ''on''\<rparr>]\<rparr>"
        from Some have "record_event n 120 ''on'' now ?s2 = Inr ?s3"
          "record_event n 120 ''on'' now (?s2\<lparr>velocity_multiplier := m\<rparr>) = Inr (?s3\<lparr>velocity_multiplier := m\<rparr>)"
          by (simp_all add: record_event_def)
        with False rec r Cons.IH [of ?s3] show ?thesis
          unfolding pinch_chord_loop.simps Let_def c2 by simp
      qed
    qed
  qed
qed

lemma pinch_chord_loop_effect:
  "pinch_chord_loop ns now s = Inr s' \<Longrightarrow>
     \<exists>ms evs. midi_out s' = midi_out s @ ms \<and> recorded_notes s' = recorded_notes s @ evs \<and>
       (\<forall>m \<in> set ms. \<exists>n \<in> set ns. n \<notin> set (active_notes s) \<and> m = NoteOn n 120) \<and>
       (\<forall>e \<in> set evs. ev_velocity e = 120 \<and> ev_action e = ''on'' \<and>
            ev_note e \<in> set ns \<and> ev_note e \<notin> set (active_notes s)) \<and>
       (player s \<longrightarrow> (\<forall>n \<in> set ns. n \<notin> set (active_notes s) \<longrightarrow> NoteOn n 120 \<in> set ms)) \<and>
       (recording s \<longrightarrow> (\<forall>n \<in> set ns. n \<notin> set (active_notes s) \<longrightarrow> n \<in> ev_note ` set evs)) \<and>
       (\<not> recording s \<longrightarrow> evs = [])"
proof (induction ns arbitrary: s)
  case Nil
  then show ?case by simp
next
  case (Cons n ns)
  show ?case
  proof (cases "n \<in> set (active_notes s)")
    case True
    with Cons.prems have "pinch_chord_loop ns now s = Inr s'" by simp
    from Cons.IH [OF this] obtain ms evs where
      ih: "midi_out s' = midi_out s @ ms" "recorded_notes s' = recorded_notes s @ evs"
          "\<forall>m \<in> set ms. \<exists>k \<in> set ns. k \<notin> set (active_notes s) \<and> m = NoteOn k 120"
          "\<forall>e \<in> set evs. ev_velocity e = 120 \<and> ev_action e = ''on'' \<and>
              ev_note e \<in> set ns \<and> ev_note e \<notin> set (active_notes s)"
          "player s \<longrightarrow> (\<forall>k \<in> set ns. k \<notin> set (active_notes s) \<longrightarrow> NoteOn k 120 \<in> set ms)"
          "recording s \<longrightarrow> (\<forall>k \<in> set ns. k \<notin> set (active_notes s) \<longrightarrow> k \<in> ev_note ` set evs)"
          "\<not> recording s \<longrightarrow> evs = []"
      by blast
    have 3: "\<forall>m \<in> set ms. \<exists>k \<in> set (n # ns). k \<notin> set (active_notes s) \<and> m = NoteOn k 120"
      using ih(3) by auto
    have 4: "\<forall>e \<in> set evs. ev_velocity e = 120 \<and> ev_action e = ''on'' \<and>
              ev_note e \<in> set (n # ns) \<and> ev_note e \<notin> set (active_notes s)"
      using ih(4) by auto
    have 5: "player s \<longrightarrow> (\<forall>k \<in> set (n # ns). k \<notin> set (active_notes s) \<longrightarrow> NoteOn k 120 \<in> set ms)"
      using ih(5) True by auto
    have 6: "recording s \<longrightarrow> (\<forall>k \<in> set (n # ns). k \<notin> set (active_notes s) \<longrightarrow> k \<in> ev_note ` set evs)"
      using ih(6) True by auto
    from ih(1,2) 3 4 5 6 ih(7) show ?thesis by blast
  next
    case False
    let ?s2 = "(play_single_note n 120 s)\<lparr>active_notes := set_add n (active_notes (play_single_note n 120 s))\<rparr>"
    let ?h = "if player s then [NoteOn n 120] else []"
    have f2: "midi_out ?s2 = midi_out s @ ?h" "recorded_notes ?s2 = recorded_notes s"
      "player ?s2 = player s" "recording ?s2 = recording s"
      "set (active_notes ?s2) = insert n (set (active_notes s))"
      by (simp_all add: play_single_note_def set_set_add)
    have "\<exists>s3 r. midi_out s3 = midi_out ?s2 \<and> recorded_notes s3 = recorded_notes ?s2 @ r \<and>
            player s3 = player ?s2 \<and> recording s3 = recording ?s2 \<and>
            active_notes s3 = active_notes ?s2 \<and>
            (\<forall>e \<in> set r. ev_velocity e = 120 \<and> ev_action e = ''on'' \<and> ev_note e = n) \<and>
            (recording s \<longrightarrow> n \<in> ev_note ` set r) \<and> (\<not> recording s \<longrightarrow> r = []) \<and>
            pinch_chord_loop ns now s3 = Inr s'"
    proof (cases "recording ?s2")
      case rec: False
      with Cons.prems False have "pinch_chord_loop ns now ?s2 = Inr s'" by (simp add: Let_def)
      with rec f2(4) show ?thesis by (intro exI [of _ ?s2] exI [of _ "[]"]) simp
    next
      case rec: True
      with Cons.prems False obtain s3 where
        r: "record_event n 120 ''on'' now ?s2 = Inr s3" and l: "pinch_chord_loop ns now s3 = Inr s'"
        by (simp add: Let_def split: sum.splits)
      from r obtain t0 where
        s3: "s3 = ?s2\<lparr>recorded_notes := recorded_notes ?s2 @
                 [\<lparr>ev_note = n, ev_velocity = 120, ev_time = now - t0, ev_action = ''on''\<rparr>]\<rparr>"
        by (auto simp: record_event_def split: option.splits)
      from rec f2(4) have rs: "recording s" by simp
      show ?thesis
        by (intro exI [of _ s3]
            exI [of _ "[\<lparr>ev_note = n, ev_velocity = 120, ev_time = now - t0, ev_action = ''on''\<rparr>]"])
          (simp add: l rs, simp add: s3)
    qed
    then obtain s3 r where
      g: "midi_out s3 = midi_out ?s2" "recorded_notes s3 = recorded_notes ?s2 @ r"
         "player s3 = player ?s2" "recording s3 = recording ?s2" "active_notes s3 = active_notes ?s2"
         "\<forall>e \<in> set r. ev_velocity e = 120 \<and> ev_action e = ''on'' \<and> ev_note e = n"
         "recording s \<longrightarrow> n \<in> ev_note ` set r" "\<not> recording s \<longrightarrow> r = []"
      and l: "pinch_chord_loop ns now s3 = Inr s'" by blast
    from Cons.IH [OF l] obtain ms evs where
      ih: "midi_out s' = midi_out s3 @ ms" "recorded_notes s' = recorded_notes s3 @ evs"
          "\<forall>m \<in> set ms. \<exists>k \<in> set ns. k \<notin> set (active_notes s3) \<and> m = NoteOn k 120"
          "\<forall>e \<in> set evs. ev_velocity e = 120 \<and> ev_action e = ''on'' \<and>
              ev_note e \<in> set ns \<and> ev_note e \<notin> set (active_notes s3)"
          "player s3 \<longrightarrow> (\<forall>k \<in> set ns. k \<notin> set (active_notes s3) \<longrightarrow> NoteOn k 120 \<in> set ms)"
          "recording s3 \<longrightarrow> (\<forall>k \<in> set ns. k \<notin> set (active_notes s3) \<longrightarrow> k \<in> ev_note ` set evs)"
          "\<not> recording s3 \<longrightarrow> evs = []"
      by blast
    have act: "set (active_notes s3) = insert n (set (active_notes s))" using g(5) f2(5) by simp
    have 1: "midi_out s' = midi_out s @ (?h @ ms)" using ih(1) g(1) f2(1) by simp
    have 2: "recorded_notes s' = recorded_notes s @ (r @ evs)" using ih(2) g(2) f2(2) by simp
    have 3: "\<forall>m \<in> set (?h @ ms). \<exists>k \<in> set (n # ns). k \<notin> set (active_notes s) \<and> m = NoteOn k 120"
      using ih(3) act False by auto
    have 4: "\<forall>e \<in> set (r @ evs). ev_velocity e = 120 \<and> ev_action e = ''on'' \<and>
              ev_note e \<in> set (n # ns) \<and> ev_note e \<notin> set (active_notes s)"
      using ih(4) g(6) act False by auto
    have 5: "player s \<longrightarrow> (\<forall>k \<in> set (n # ns). k \<notin> set (active_notes s) \<longrightarrow> NoteOn k 120 \<in> set (?h @ ms))"
      using ih(5) g(3) f2(3) act by auto
    have 6: "recording s \<longrightarrow> (\<forall>k \<in> set (n # ns). k \<notin> set (active_notes s) \<longrightarrow> k \<in> ev_note ` set (r @ evs))"
      using ih(6) g(4,7) f2(4) act by auto
    have 7: "\<not> recording s \<longrightarrow> r @ evs = []"
      using ih(7) g(4,8) f2(4) by simp
    from 1 2 3 4 5 6 7 show ?thesis by blast
  qed
qed

lemma handle_pinch_gesture_multiplier:
  "handle_pinch_gesture h now (s\<lparr>velocity_multiplier := m\<rparr>) =
     map_sum id (\<lambda>(b, t). (b, t\<lparr>velocity_multiplier := m\<rparr>)) (handle_pinch_gesture h now s)"
proof -
  have ip: "is_pinching h (s\<lparr>velocity_multiplier := m\<rparr>) = is_pinching h s"
    by (simp add: is_pinching_def)
  have pb: "pitch_bend_value h (t\<lparr>velocity_multiplier := m\<rparr>) = pitch_bend_value h t" for t
    by (simp add: pitch_bend_value_def Let_def split: prod.splits)
  have sp: "send_pitch_bend v (t\<lparr>velocity_multiplier := m\<rparr>) = (send_pitch_bend v t)\<lparr>velocity_multiplier := m\<rparr>"
    for v t by (simp add: send_pitch_bend_def Let_def)
  show ?thesis
  proof (cases "pinch_chord_playing s")
    case True
    then show ?thesis
      by (simp add: handle_pinch_gesture_def ip pb sp split: sum.splits)
  next
    case False
    show ?thesis
    proof (cases "pinch_chord_loop (pinch_chord_notes s) now s")
      case (Inl e)
      with False show ?thesis
        by (simp add: handle_pinch_gesture_def ip pinch_chord_loop_multiplier)
    next
      case (Inr s1)
      have "pitch_bend_value h (s1\<lparr>velocity_multiplier := m, pinch_chord_playing := True\<rparr>) =
            pitch_bend_value h (s1\<lparr>pinch_chord_playing := True\<rparr>)"
        by (simp add: pitch_bend_value_def Let_def split: prod.splits)
      moreover have "send_pitch_bend v (s1\<lparr>velocity_multiplier := m, pinch_chord_playing := True\<rparr>) =
            (send_pitch_bend v (s1\<lparr>pinch_chord_playing := True\<rparr>))\<lparr>velocity_multiplier := m\<rparr>" for v
        by (simp add: send_pitch_bend_def Let_def)
      ultimately show ?thesis using False Inr
        by (simp add: handle_pinch_gesture_def ip pinch_chord_loop_multiplier split: sum.splits)
    qed
  qed
qed

lemma not_pinching_pinky: "\<not> is_pinching right_pinky_up s"
  by (simp add: is_pinching_def right_pinky_up_def Let_def)

lemma velocity_pinky: "calculate_dynamic_velocity 1 (Some (lmList right_pinky_up)) 4 = 20"
  by (simp add: calculate_dynamic_velocity_def right_pinky_up_def finger_landmarks_def xy_def euclid_def
      np_clip_def py_int_def Let_def)

lemma pinky_fingers:
  assumes "prev_states s = all_down D_Major" and "velocity_multiplier s = 1"
    and "play_chord_enhanced [81, 85, 88] 20 now s = Inr s1"
  shows "finger_loop 0 finger_names right_pinky_up ''right'' D_Major now (s, all_down D_Major, []) =
     Inr (s1,
          [(''left'', [(''thumb'', 0), (''index'', 0), (''middle'', 0), (''ring'', 0), (''pinky'', 0)]),
           (''right'', [(''thumb'', 0), (''index'', 0), (''middle'', 0), (''ring'', 0), (''pinky'', 1)])],
          [''right_pinky''])"
  by (simp add: finger_names_def finger_step_def finger_edge_def D_Major_def all_down_def dict_get_def
      dict_get2_def assms [unfolded all_down_def D_Major_def, simplified] velocity_pinky
      set_add_def Let_def right_pinky_up_def [THEN arg_cong [where f = fingersUp]])

lemma pinky_run:
  "steps [(Key 114, 0), (Frame 1280 [right_pinky_up], 1)] initial_piano =
     Inr (initial_piano\<lparr>active_notes := [81, 85, 88], active_keys := [''right_pinky''],
            prev_states := [(''left'', [(''thumb'', 0), (''index'', 0), (''middle'', 0), (''ring'', 0), (''pinky'', 0)]),
                            (''right'', [(''thumb'', 0), (''index'', 0), (''middle'', 0), (''ring'', 0), (''pinky'', 1)])],
            recording := True, recording_start_time := Some 0,
            recorded_notes := [\<lparr>ev_note = 81, ev_velocity = 20, ev_time = 1, ev_action = ''on''\<rparr>,
                               \<lparr>ev_note = 85, ev_velocity = 20, ev_time = 1, ev_action = ''on''\<rparr>,
                               \<lparr>ev_note = 88, ev_velocity = 20, ev_time = 1, ev_action = ''on''\<rparr>],
            midi_out := [NoteOn 81 20, NoteOn 85 20, NoteOn 88 20]\<rparr>)"
proof -
  let ?s = "initial_piano\<lparr>recording := True, recorded_notes := [], recording_start_time := Some 0\<rparr>"
  let ?s1 = "initial_piano\<lparr>active_notes := [81, 85, 88],
            recording := True, recording_start_time := Some 0,
            recorded_notes := [\<lparr>ev_note = 81, ev_velocity = 20, ev_time = 1, ev_action = ''on''\<rparr>,
                               \<lparr>ev_note = 85, ev_velocity = 20, ev_time = 1, ev_action = ''on''\<rparr>,
                               \<lparr>ev_note = 88, ev_velocity = 20, ev_time = 1, ev_action = ''on''\<rparr>],
            midi_out := [NoteOn 81 20, NoteOn 85 20, NoteOn 88 20]\<rparr>"
  have k: "handle_keyboard_input 114 0 initial_piano = Inr ?s"
    by (simp add: handle_keyboard_input_def toggle_recording_def initial_piano_def)
  have pl: "play_chord_enhanced [81, 85, 88] 20 1 ?s = Inr ?s1"
    by (simp add: play_chord_enhanced_def initial_piano_def play_single_note_def set_add_def
        record_event_def Let_def)
  have f: "prev_states ?s = all_down D_Major" "velocity_multiplier ?s = 1" "\<not> pinch_chord_playing ?s1"
    by (simp_all add: initial_piano_def)
  have hp: "handle_pinch_gesture right_pinky_up 1 ?s = Inr (False, ?s)"
    by (simp add: handle_pinch_gesture_def not_pinching_pinky)
  have ch: "get_current_chords ?s = Inr D_Major"
    by (simp add: get_current_chords_def initial_piano_def initial_scales_def dict_get_def)
  have "run_frame 1280 [right_pinky_up] 1 ?s =
     Inr (?s1\<lparr>active_keys := [''right_pinky''],
            prev_states := [(''left'', [(''thumb'', 0), (''index'', 0), (''middle'', 0), (''ring'', 0), (''pinky'', 0)]),
                            (''right'', [(''thumb'', 0), (''index'', 0), (''middle'', 0), (''ring'', 0), (''pinky'', 1)])],
            screen_width := 1280\<rparr>)"
    by (simp add: run_frame_def process_hands_def ch hp pinky_fingers [OF f(1,2) pl] f(3) Let_def
        right_pinky_up_def [THEN arg_cong [where f = hand_type]])
  then have "run_frame 1280 [right_pinky_up] 1 ?s =
     Inr (initial_piano\<lparr>active_notes := [81, 85, 88], active_keys := [''right_pinky''],
            prev_states := [(''left'', [(''thumb'', 0), (''index'', 0), (''middle'', 0), (''ring'', 0), (''pinky'', 0)]),
                            (''right'', [(''thumb'', 0), (''index'', 0), (''middle'', 0), (''ring'', 0), (''pinky'', 1)])],
            recording := True, recording_start_time := Some 0,
            recorded_notes := [\<lparr>ev_note = 81, ev_velocity = 20, ev_time = 1, ev_action = ''on''\<rparr>,
                               \<lparr>ev_note = 85, ev_velocity = 20, ev_time = 1, ev_action = ''on''\<rparr>,
                               \<lparr>ev_note = 88, ev_velocity = 20, ev_time = 1, ev_action = ''on''\<rparr>],
            midi_out := [NoteOn 81 20, NoteOn 85 20, NoteOn 88 20]\<rparr>)"
    by (simp add: initial_piano_def)
  with k show ?thesis by simp
qed

lemma pinch_onset_with_88_on:
  "handle_pinch_gesture pinching_hand 2
     (initial_piano\<lparr>active_notes := [81, 85, 88], active_keys := [''right_pinky''],
            prev_states := [(''left'', [(''thumb'', 0), (''index'', 0), (''middle'', 0), (''ring'', 0), (''pinky'', 0)]),
                            (''right'', [(''thumb'', 0), (''index'', 0), (''middle'', 0), (''ring'', 0), (''pinky'', 1)])],
            recording := True, recording_start_time := Some 0,
            recorded_notes := [\<lparr>ev_note = 81, ev_velocity = 20, ev_time = 1, ev_action = ''on''\<rparr>,
                               \<lparr>ev_note = 85, ev_velocity = 20, ev_time = 1, ev_action = ''on''\<rparr>,
                               \<lparr>ev_note = 88, ev_velocity = 20, ev_time = 1, ev_action = ''on''\<rparr>],
            midi_out := [NoteOn 81 20, NoteOn 85 20, NoteOn 88 20]\<rparr>) =
   Inr (True, initial_piano\<lparr>active_notes := [81, 85, 88, 84, 91], active_keys := [''right_pinky''],
            prev_states := [(''left'', [(''thumb'', 0), (''index'', 0), (''middle'', 0), (''ring'', 0), (''pinky'', 0)]),
                            (''right'', [(''thumb'', 0), (''index'', 0), (''middle'', 0), (''ring'', 0), (''pinky'', 1)])],
            recording := True, recording_start_time := Some 0,
            recorded_notes := [\<lparr>ev_note = 81, ev_velocity = 20, ev_time = 1, ev_action = ''on''\<rparr>,
                               \<lparr>ev_note = 85, ev_velocity = 20, ev_time = 1, ev_action = ''on''\<rparr>,
                               \<lparr>ev_note = 88, ev_velocity = 20, ev_time = 1, ev_action = ''on''\<rparr>,
                               \<lparr>ev_note = 84, ev_velocity = 120, ev_time = 2, ev_action = ''on''\<rparr>,
                               \<lparr>ev_note = 91, ev_velocity = 120, ev_time = 2, ev_action = ''on''\<rparr>],
            pinch_chord_playing := True,
            midi_out := [NoteOn 81 20, NoteOn 85 20, NoteOn 88 20, NoteOn 84 120, NoteOn 91 120,
                         WriteShort 224 127 63]\<rparr>)"
proof -
  have ip: "is_pinching pinching_hand s" if "pinch_threshold s = 30" for s
    using that by (simp add: is_pinching_def pinching_hand_def xy_def euclid_def Let_def)
  show ?thesis
    apply (simp add: handle_pinch_gesture_def ip initial_piano_def [THEN arg_cong [where f = pinch_threshold]])
    apply (simp add: pinching_hand_def initial_piano_def play_single_note_def
        set_add_def record_event_def pitch_bend_value_def np_clip_def py_int_def send_pitch_bend_def
        Let_def)
    done
qed

text \<open>
  C10, as claimed, fails. While recording in D_Major, raising the right little finger
  switches on 81, 85 and 88. At the pinch that follows, the pinch chord is 84, 88, 91, but
  88 is already active: the onset sends and records 84 and 91 with velocity 120, and for
  88 it sends no note-on and records nothing.
\<close>

theorem pinch_skips_active_note_counterexample:
  "steps [(Key 114, 0), (Frame 1280 [right_pinky_up], 1), (Frame 1280 [pinching_hand], 2)] initial_piano =
     Inr (initial_piano\<lparr>active_notes := [81, 85, 88, 84, 91],
            recording := True, recording_start_time := Some 0,
            recorded_notes := [\<lparr>ev_note = 81, ev_velocity = 20, ev_time = 1, ev_action = ''on''\<rparr>,
                               \<lparr>ev_note = 85, ev_velocity = 20, ev_time = 1, ev_action = ''on''\<rparr>,
                               \<lparr>ev_note = 88, ev_velocity = 20, ev_time = 1, ev_action = ''on''\<rparr>,
                               \<lparr>ev_note = 84, ev_velocity = 120, ev_time = 2, ev_action = ''on''\<rparr>,
                               \<lparr>ev_note = 91, ev_velocity = 120, ev_time = 2, ev_action = ''on''\<rparr>],
            pinch_chord_playing := True,
            midi_out := [NoteOn 81 20, NoteOn 85 20, NoteOn 88 20, NoteOn 84 120, NoteOn 91 120,
                         WriteShort 224 127 63]\<rparr>) \<and>
   pinch_chord_notes initial_piano = [84, 88, 91] \<and>
   NoteOn 88 120 \<notin> set [NoteOn 81 20, NoteOn 85 20, NoteOn 88 20, NoteOn 84 120, NoteOn 91 120,
                         WriteShort 224 127 63]"
proof -
  let ?s1 = "initial_piano\<lparr>active_notes := [81, 85, 88], active_keys := [''right_pinky''],
            prev_states := [(''left'', [(''thumb'', 0), (''index'', 0), (''middle'', 0), (''ring'', 0), (''pinky'', 0)]),
                            (''right'', [(''thumb'', 0), (''index'', 0), (''middle'', 0), (''ring'', 0), (''pinky'', 1)])],
            recording := True, recording_start_time := Some 0,
            recorded_notes := [\<lparr>ev_note = 81, ev_velocity = 20, ev_time = 1, ev_action = ''on''\<rparr>,
                               \<lparr>ev_note = 85, ev_velocity = 20, ev_time = 1, ev_action = ''on''\<rparr>,
                               \<lparr>ev_note = 88, ev_velocity = 20, ev_time = 1, ev_action = ''on''\<rparr>],
            midi_out := [NoteOn 81 20, NoteOn 85 20, NoteOn 88 20]\<rparr>"
  have ch: "get_current_chords ?s1 = Inr D_Major"
    by (simp add: get_current_chords_def initial_piano_def initial_scales_def dict_get_def)
  have fr: "run_frame 1280 [pinching_hand] 2 ?s1 =
     Inr (initial_piano\<lparr>active_notes := [81, 85, 88, 84, 91],
            recording := True, recording_start_time := Some 0,
            recorded_notes := [\<lparr>ev_note = 81, ev_velocity = 20, ev_time = 1, ev_action = ''on''\<rparr>,
                               \<lparr>ev_note = 85, ev_velocity = 20, ev_time = 1, ev_action = ''on''\<rparr>,
                               \<lparr>ev_note = 88, ev_velocity = 20, ev_time = 1, ev_action = ''on''\<rparr>,
                               \<lparr>ev_note = 84, ev_velocity = 120, ev_time = 2, ev_action = ''on''\<rparr>,
                               \<lparr>ev_note = 91, ev_velocity = 120, ev_time = 2, ev_action = ''on''\<rparr>],
            pinch_chord_playing := True,
            midi_out := [NoteOn 81 20, NoteOn 85 20, NoteOn 88 20, NoteOn 84 120, NoteOn 91 120,
                         WriteShort 224 127 63]\<rparr>)"
    apply (simp add: run_frame_def process_hands_def ch pinch_onset_with_88_on Let_def
        pinching_hand_def [THEN arg_cong [where f = hand_type]])
    apply (simp add: initial_piano_def all_down_def D_Major_def)
    done
  have "steps ([(Key 114, 0), (Frame 1280 [right_pinky_up], 1)] @ [(Frame 1280 [pinching_hand], 2)])
          initial_piano =
     Inr (initial_piano\<lparr>active_notes := [81, 85, 88, 84, 91],
            recording := True, recording_start_time := Some 0,
            recorded_notes := [\<lparr>ev_note = 81, ev_velocity = 20, ev_time = 1, ev_action = ''on''\<rparr>,
                               \<lparr>ev_note = 85, ev_velocity = 20, ev_time = 1, ev_action = ''on''\<rparr>,
                               \<lparr>ev_note = 88, ev_velocity = 20, ev_time = 1, ev_action = ''on''\<rparr>,
                               \<lparr>ev_note = 84, ev_velocity = 120, ev_time = 2, ev_action = ''on''\<rparr>,
                               \<lparr>ev_note = 91, ev_velocity = 120, ev_time = 2, ev_action = ''on''\<rparr>],
            pinch_chord_playing := True,
            midi_out := [NoteOn 81 20, NoteOn 85 20, NoteOn 88 20, NoteOn 84 120, NoteOn 91 120,
                         WriteShort 224 127 63]\<rparr>)"
    unfolding steps_append pinky_run by (simp add: fr)
  then show ?thesis by (simp add: initial_piano_def)
qed

lemma pinch_onset_recording:
  "handle_pinch_gesture pinching_hand 12 (sounding_piano\<lparr>active_notes := [88]\<rparr>) =
     Inr (True, sounding_piano\<lparr>active_notes := [88, 84, 91], pinch_chord_playing := True,
            midi_out := [NoteOn 62 90, NoteOn 66 90, NoteOn 69 90, NoteOn 74 90,
                         NoteOn 84 120, NoteOn 91 120, WriteShort 224 127 63],
            recorded_notes := [\<lparr>ev_note = 84, ev_velocity = 120, ev_time = 2, ev_action = ''on''\<rparr>,
                               \<lparr>ev_note = 91, ev_velocity = 120, ev_time = 2, ev_action = ''on''\<rparr>]\<rparr>)"
proof -
  have ip: "is_pinching pinching_hand (sounding_piano\<lparr>active_notes := [88]\<rparr>)"
    by (simp add: is_pinching_def pinching_hand_def sounding_piano_def initial_piano_def xy_def
        euclid_def Let_def)
  show ?thesis
    apply (simp add: handle_pinch_gesture_def ip)
    apply (simp add: pinching_hand_def sounding_piano_def initial_piano_def play_single_note_def
        set_add_def record_event_def pitch_bend_value_def np_clip_def py_int_def send_pitch_bend_def
        Let_def)
    done
qed

text \<open>
  C10, amended. When \<^verbatim>\<open>handle_pinch_gesture\<close> finds the hand pinching and the pinch
  chord is not playing yet, every note-on it sends has velocity 120 and is for a note of
  the pinch chord that was not active; with a player each pinch-chord note that was not
  active gets one. The events it records all have velocity 120 and action on and are for
  pinch-chord notes that were not active; while recording each such note is recorded, and
  without recording nothing is. A pinch-chord note that is already active is therefore
  neither sent nor recorded. Changing the velocity multiplier changes nothing in what the
  call does: the same call on the piano with any other multiplier gives the same result
  with that multiplier.
\<close>

theorem pinch_onset_velocity_120:
  assumes "handle_pinch_gesture h now s = Inr (True, s')" and "\<not> pinch_chord_playing s"
  shows "(\<forall>n v. NoteOn n v \<in> set (sent s s') \<longrightarrow>
              v = 120 \<and> n \<in> set (pinch_chord_notes s) \<and> n \<notin> set (active_notes s)) \<and>
         (player s \<longrightarrow> (\<forall>n \<in> set (pinch_chord_notes s).
              n \<notin> set (active_notes s) \<longrightarrow> NoteOn n 120 \<in> set (sent s s'))) \<and>
         (\<exists>evs. recorded_notes s' = recorded_notes s @ evs \<and>
              (\<forall>e \<in> set evs. ev_velocity e = 120 \<and> ev_action e = ''on'' \<and>
                   ev_note e \<in> set (pinch_chord_notes s) \<and> ev_note e \<notin> set (active_notes s)) \<and>
              (recording s \<longrightarrow> (\<forall>n \<in> set (pinch_chord_notes s).
                   n \<notin> set (active_notes s) \<longrightarrow> n \<in> ev_note ` set evs)) \<and>
              (\<not> recording s \<longrightarrow> evs = [])) \<and>
         handle_pinch_gesture h now (s\<lparr>velocity_multiplier := m\<rparr>) =
           Inr (True, s'\<lparr>velocity_multiplier := m\<rparr>)"
proof -
  from assms obtain s1 v where
    l: "pinch_chord_loop (pinch_chord_notes s) now s = Inr s1"
    and s': "s' = send_pitch_bend v (s1\<lparr>pinch_chord_playing := True\<rparr>)"
    by (auto simp: handle_pinch_gesture_def split: if_splits sum.splits)
  from pinch_chord_loop_effect [OF l] obtain ms evs where
    e: "midi_out s1 = midi_out s @ ms" "recorded_notes s1 = recorded_notes s @ evs"
       "\<forall>m \<in> set ms. \<exists>n \<in> set (pinch_chord_notes s). n \<notin> set (active_notes s) \<and> m = NoteOn n 120"
       "\<forall>e \<in> set evs. ev_velocity e = 120 \<and> ev_action e = ''on'' \<and>
            ev_note e \<in> set (pinch_chord_notes s) \<and> ev_note e \<notin> set (active_notes s)"
       "player s \<longrightarrow> (\<forall>n \<in> set (pinch_chord_notes s). n \<notin> set (active_notes s) \<longrightarrow> NoteOn n 120 \<in> set ms)"
       "recording s \<longrightarrow> (\<forall>n \<in> set (pinch_chord_notes s). n \<notin> set (active_notes s) \<longrightarrow> n \<in> ev_note ` set evs)"
       "\<not> recording s \<longrightarrow> evs = []"
    by blast
  obtain tl where tl: "midi_out s' = midi_out s1 @ tl" "\<forall>m \<in> set tl. \<exists>a b c. m = WriteShort a b c"
    unfolding s' by (cases "player s1") (auto simp: send_pitch_bend_def Let_def)
  have rec: "recorded_notes s' = recorded_notes s1"
    unfolding s' by (simp add: send_pitch_bend_def Let_def)
  from tl(1) e(1) have snt: "sent s s' = ms @ tl" by (simp add: sent_def)
  have 1: "\<forall>n v. NoteOn n v \<in> set (sent s s') \<longrightarrow>
              v = 120 \<and> n \<in> set (pinch_chord_notes s) \<and> n \<notin> set (active_notes s)"
    unfolding snt using e(3) tl(2) by auto
  have 2: "player s \<longrightarrow> (\<forall>n \<in> set (pinch_chord_notes s).
              n \<notin> set (active_notes s) \<longrightarrow> NoteOn n 120 \<in> set (sent s s'))"
    unfolding snt using e(5) by auto
  have 3: "\<exists>evs. recorded_notes s' = recorded_notes s @ evs \<and>
              (\<forall>e \<in> set evs. ev_velocity e = 120 \<and> ev_action e = ''on'' \<and>
                   ev_note e \<in> set (pinch_chord_notes s) \<and> ev_note e \<notin> set (active_notes s)) \<and>
              (recording s \<longrightarrow> (\<forall>n \<in> set (pinch_chord_notes s).
                   n \<notin> set (active_notes s) \<longrightarrow> n \<in> ev_note ` set evs)) \<and>
              (\<not> recording s \<longrightarrow> evs = [])"
    using rec e(2,4,6,7) by (intro exI [of _ evs]) simp
  have 4: "handle_pinch_gesture h now (s\<lparr>velocity_multiplier := m\<rparr>) =
           Inr (True, s'\<lparr>velocity_multiplier := m\<rparr>)"
    unfolding handle_pinch_gesture_multiplier assms(1) by simp
  from 1 2 3 4 show ?thesis by blast
qed

theorem pinch_onset_velocity_120_witness:
  "handle_pinch_gesture pinching_hand 12 (sounding_piano\<lparr>active_notes := [88]\<rparr>) =
     Inr (True, sounding_piano\<lparr>active_notes := [88, 84, 91], pinch_chord_playing := True,
            midi_out := [NoteOn 62 90, NoteOn 66 90, NoteOn 69 90, NoteOn 74 90,
                         NoteOn 84 120, NoteOn 91 120, WriteShort 224 127 63],
            recorded_notes := [\<lparr>ev_note = 84, ev_velocity = 120, ev_time = 2, ev_action = ''on''\<rparr>,
                               \<lparr>ev_note = 91, ev_velocity = 120, ev_time = 2, ev_action = ''on''\<rparr>]\<rparr>) \<and>
   \<not> pinch_chord_playing (sounding_piano\<lparr>active_notes := [88]\<rparr>) \<and>
   handle_pinch_gesture pinching_hand 12 (sounding_piano\<lparr>active_notes := [88], velocity_multiplier := 2\<rparr>) =
     Inr (True, sounding_piano\<lparr>active_notes := [88, 84, 91], pinch_chord_playing := True,
            midi_out := [NoteOn 62 90, NoteOn 66 90, NoteOn 69 90, NoteOn 74 90,
                         NoteOn 84 120, NoteOn 91 120, WriteShort 224 127 63],
            recorded_notes := [\<lparr>ev_note = 84, ev_velocity = 120, ev_time = 2, ev_action = ''on''\<rparr>,
                               \<lparr>ev_note = 91, ev_velocity = 120, ev_time = 2, ev_action = ''on''\<rparr>],
            velocity_multiplier := 2\<rparr>)"
proof -
  have np: "\<not> pinch_chord_playing (sounding_piano\<lparr>active_notes := [88]\<rparr>)"
    by (simp add: sounding_piano_def initial_piano_def)
  from pinch_onset_velocity_120 [OF pinch_onset_recording np, of 2]
  have "handle_pinch_gesture pinching_hand 12 (sounding_piano\<lparr>active_notes := [88], velocity_multiplier := 2\<rparr>) =
     Inr (True, sounding_piano\<lparr>active_notes := [88, 84, 91], pinch_chord_playing := True,
            midi_out := [NoteOn 62 90, NoteOn 66 90, NoteOn 69 90, NoteOn 74 90,
                         NoteOn 84 120, NoteOn 91 120, WriteShort 224 127 63],
            recorded_notes := [\<lparr>ev_note = 84, ev_velocity = 120, ev_time = 2, ev_action = ''on''\<rparr>,
                               \<lparr>ev_note = 91, ev_velocity = 120, ev_time = 2, ev_action = ''on''\<rparr>],
            velocity_multiplier := 2\<rparr>)"
    by simp
  with pinch_onset_recording np show ?thesis by blast
qed

end
